theory Spec2Isabelle
  imports Complex_Main "HOL-Library.AList" "HOL-Library.Product_Lexorder"
begin

section \<open>The graph of \<open>SCA_dijkstra.py\<close>\<close>

text \<open>
  Node ids are Python ints. Edge weights are the Python numbers \<open>0.5\<close>, \<open>1\<close> and \<open>2\<close>;
  they and their sums are dyadic fractions, which binary floating point represents
  exactly, so weights and distances are modelled as reals.

  A \<open>networkx.Graph\<close> keeps two insertion-ordered dictionaries: \<open>_node\<close> (node to
  attributes, here only \<open>pos\<close>) and \<open>_adj\<close> (node to a dictionary from neighbour to the
  edge data, here only \<open>weight\<close>). Both are association lists, updated with
  \<open>AList.update\<close>, which like a Python dict overwrites in place or appends.
\<close>

type_synonym node = int

record graph =
  node_attr :: "(node \<times> (int \<times> int) option) list"
  adj :: "(node \<times> (node \<times> real) list) list"

definition empty_graph :: graph where
  "empty_graph = \<lparr>node_attr = [], adj = []\<rparr>"

text \<open>\<open>G.nodes()\<close> and \<open>n in G\<close>.\<close>

definition nodes :: "graph \<Rightarrow> node list" where
  "nodes G = map fst (node_attr G)"

definition has_node :: "graph \<Rightarrow> node \<Rightarrow> bool" where
  "has_node G n = (n \<in> set (nodes G))"

text \<open>\<open>Graph.add_node(n, pos=pos)\<close>: a new node gets an empty adjacency dictionary;
  an existing node only has its attribute updated.\<close>

definition add_node :: "node \<Rightarrow> (int \<times> int) \<Rightarrow> graph \<Rightarrow> graph" where
  "add_node n pos G =
     (if \<not> has_node G n
      then \<lparr>node_attr = AList.update n (Some pos) (node_attr G), adj = AList.update n [] (adj G)\<rparr>
      else G\<lparr>node_attr := AList.update n (Some pos) (node_attr G)\<rparr>)"

text \<open>\<open>Graph.add_edge(u, v, weight=w)\<close>: endpoints that are not yet nodes are added
  (with no attributes), then \<open>_adj[u][v]\<close> and \<open>_adj[v][u]\<close> are set. Nothing is checked.\<close>

definition ensure_node :: "node \<Rightarrow> graph \<Rightarrow> graph" where
  "ensure_node n G =
     (if \<not> has_node G n
      then \<lparr>node_attr = AList.update n None (node_attr G), adj = AList.update n [] (adj G)\<rparr>
      else G)"

definition set_adj :: "node \<Rightarrow> node \<Rightarrow> real \<Rightarrow> graph \<Rightarrow> graph" where
  "set_adj u v w G = G\<lparr>adj := AList.map_entry u (AList.update v w) (adj G)\<rparr>"

definition add_edge :: "node \<times> node \<times> real \<Rightarrow> graph \<Rightarrow> graph" where
  "add_edge e G =
     (case e of (u, v, w) \<Rightarrow> set_adj v u w (set_adj u v w (ensure_node v (ensure_node u G))))"

text \<open>The two literals of \<open>create_grid_graph\<close>.\<close>

definition node_positions :: "(node \<times> (int \<times> int)) list" where
  "node_positions =
     [(0, (4, 0)), (1, (3, 0)), (2, (3, 1)), (3, (4, 1)), (4, (4, 2)), (5, (3, 2)),
      (6, (1, 2)), (7, (0, 2)), (8, (0, 1)), (9, (0, 0)), (10, (1, 0)), (11, (1, 1))]"

definition edges_with_weights :: "(node \<times> node \<times> real) list" where
  "edges_with_weights =
     [(0, 1, 1/2), (0, 3, 1), (1, 2, 1), (2, 3, 1/2), (2, 5, 1), (3, 4, 1), (4, 5, 1/2),
      (7, 6, 2), (7, 8, 1), (6, 11, 1), (8, 9, 1), (8, 11, 2), (9, 10, 2), (10, 11, 1),
      (5, 6, 2), (2, 11, 2), (1, 10, 2)]"

text \<open>The two loops of \<open>create_grid_graph\<close> (lines 47-48 and 78-79), over any literal.\<close>

definition add_nodes :: "(node \<times> (int \<times> int)) list \<Rightarrow> graph \<Rightarrow> graph" where
  "add_nodes ps G = fold (\<lambda>(n, pos). add_node n pos) ps G"

definition add_edges :: "(node \<times> node \<times> real) list \<Rightarrow> graph \<Rightarrow> graph" where
  "add_edges es G = fold add_edge es G"

definition build_graph :: "(node \<times> (int \<times> int)) list \<Rightarrow> (node \<times> node \<times> real) list \<Rightarrow> graph" where
  "build_graph ps es = add_edges es (add_nodes ps empty_graph)"

definition create_grid_graph :: "graph \<times> (node \<times> (int \<times> int)) list" where
  "create_grid_graph = (build_graph node_positions edges_with_weights, node_positions)"

text \<open>\<open>G._adj[v].items()\<close>; a node that is not a key raises \<open>KeyError\<close>.\<close>

datatype error = NetworkXNoPath | NodeNotFound | ValueError | KeyError

definition succ :: "graph \<Rightarrow> node \<Rightarrow> error + (node \<times> real) list" where
  "succ G v = (case map_of (adj G) v of None \<Rightarrow> Inl KeyError | Some nbrs \<Rightarrow> Inr nbrs)"

text \<open>\<open>G.edges(data='weight')\<close>: every undirected edge once, reported from the endpoint
  that comes first in \<open>_adj\<close> (the view skips neighbours it has already visited).\<close>

fun edges_from :: "(node \<times> (node \<times> real) list) list \<Rightarrow> node list \<Rightarrow> (node \<times> node \<times> real) list" where
  "edges_from [] seen = []"
| "edges_from ((n, nbrs) # rest) seen =
     map (\<lambda>(nbr, w). (n, nbr, w)) (filter (\<lambda>(nbr, w). nbr \<notin> set seen) nbrs)
       @ edges_from rest (n # seen)"

definition edges :: "graph \<Rightarrow> (node \<times> node \<times> real) list" where
  "edges G = edges_from (adj G) []"

section \<open>Dijkstra's algorithm as networkx runs it\<close>

text \<open>
  \<open>compute_shortest_paths\<close> calls \<open>nx.dijkstra_path\<close> and \<open>nx.dijkstra_path_length\<close>.
  These are functions of the networkx library (3.x), translated here from the library's
  own code in \<open>networkx/algorithms/shortest_paths/weighted.py\<close>. Both run
  \<open>_dijkstra_multisource\<close> with \<open>pred=None\<close> and \<open>cutoff=None\<close>; the first passes a \<open>paths\<close>
  dictionary, the second \<open>paths=None\<close>. Every edge carries a \<open>weight\<close> attribute, so the
  weight function never falls back on its default.

  The fringe is a \<open>heapq\<close> of tuples \<open>(distance, c, node)\<close>, where \<open>c\<close> comes from a
  counter. \<open>heappop\<close> returns the least tuple in Python's lexicographic order and
  removes it; the fringe is kept as a list and the least tuple is searched for.
\<close>

type_synonym entry = "real \<times> nat \<times> node"

record dstate =
  dist :: "node \<rightharpoonup> real"
  seen :: "node \<rightharpoonup> real"
  paths :: "(node \<rightharpoonup> node list) option"
  fringe :: "entry list"
  c :: nat

fun least :: "entry \<Rightarrow> entry list \<Rightarrow> entry" where
  "least m [] = m"
| "least m (x # xs) = least (if x < m then x else m) xs"

definition heappop :: "entry list \<Rightarrow> entry \<times> entry list" where
  "heappop fr = (let m = least (hd fr) (tl fr) in (m, remove1 m fr))"

text \<open>\<open>push(fringe, (d, next(c), u))\<close>.\<close>

definition push :: "real \<Rightarrow> node \<Rightarrow> dstate \<Rightarrow> dstate" where
  "push d u st = st\<lparr>fringe := (d, c st, u) # fringe st, c := Suc (c st)\<rparr>"

text \<open>The body of \<open>for u, e in G_succ[v].items()\<close>, for the edge to \<open>u\<close> of weight \<open>cost\<close>.
  \<open>improve\<close> is the branch that records a shorter tentative distance. A dictionary
  read of a missing key raises \<open>KeyError\<close>.\<close>

definition improve :: "node \<Rightarrow> node \<Rightarrow> real \<Rightarrow> dstate \<Rightarrow> error + dstate" where
  "improve v u vu_dist st =
     (let st1 = push vu_dist u (st\<lparr>seen := (seen st)(u \<mapsto> vu_dist)\<rparr>)
      in case paths st1 of
           None \<Rightarrow> Inr st1
         | Some ps \<Rightarrow>
            (case ps v of
               None \<Rightarrow> Inl KeyError
             | Some pv \<Rightarrow> Inr (st1\<lparr>paths := Some (ps(u \<mapsto> pv @ [u]))\<rparr>)))"

definition relax :: "node \<Rightarrow> node \<times> real \<Rightarrow> dstate \<Rightarrow> error + dstate" where
  "relax v e st =
     (case e of (u, cost) \<Rightarrow>
        (case dist st v of
           None \<Rightarrow> Inl KeyError
         | Some dv \<Rightarrow>
            (let vu_dist = dv + cost
             in case dist st u of
                  Some u_dist \<Rightarrow> if vu_dist < u_dist then Inl ValueError else Inr st
                | None \<Rightarrow>
                   (case seen st u of
                      None \<Rightarrow> improve v u vu_dist st
                    | Some s \<Rightarrow> if vu_dist < s then improve v u vu_dist st else Inr st))))"

fun relax_all :: "node \<Rightarrow> (node \<times> real) list \<Rightarrow> dstate \<Rightarrow> error + dstate" where
  "relax_all v [] st = Inr st"
| "relax_all v (e # es) st =
     (case relax v e st of Inl err \<Rightarrow> Inl err | Inr st' \<Rightarrow> relax_all v es st')"

text \<open>The nodes still to be settled: those named in an adjacency dictionary or waiting
  in the fringe, and not yet in \<open>dist\<close>. The \<open>while fringe\<close> loop settles one of them or
  shortens the fringe, which is why it ends.\<close>

definition nbr_nodes :: "graph \<Rightarrow> node set" where
  "nbr_nodes G = set (concat (map (\<lambda>(n, nbrs). map fst nbrs) (adj G)))"

definition entry_node :: "entry \<Rightarrow> node" where
  "entry_node e = snd (snd e)"

definition pending :: "graph \<Rightarrow> dstate \<Rightarrow> node set" where
  "pending G st = (nbr_nodes G \<union> entry_node ` set (fringe st)) - dom (dist st)"

lemma least_in: "least m xs \<in> insert m (set xs)"
  by (induction xs arbitrary: m) auto

lemma heappop_in:
  assumes "fr \<noteq> []" and "heappop fr = (m, fr')"
  shows "m \<in> set fr" and "fr' = remove1 m fr"
proof -
  obtain x xs where fr: "fr = x # xs" using assms(1) by (cases fr) auto
  have "least x xs \<in> insert x (set xs)" by (rule least_in)
  with assms(2) fr show "m \<in> set fr" by (auto simp: heappop_def Let_def)
  from assms(2) show "fr' = remove1 m fr" by (auto simp: heappop_def Let_def)
qed

lemma heappop_shorter:
  assumes "fr \<noteq> []" and "heappop fr = (m, fr')"
  shows "length fr' < length fr"
proof -
  from heappop_in[OF assms] have "m \<in> set fr" "fr' = remove1 m fr" by auto
  moreover from this(1) have "0 < length fr" by (rule length_pos_if_in_set)
  ultimately show ?thesis by (simp add: length_remove1)
qed

lemma heappop_subset:
  assumes "fr \<noteq> []" and "heappop fr = (m, fr')"
  shows "set fr' \<subseteq> set fr"
  using heappop_in(2)[OF assms] set_remove1_subset by fastforce

lemma improve_frame:
  assumes "improve v u x st = Inr st'"
  shows "dist st' = dist st" and "set (fringe st') = insert (x, c st, u) (set (fringe st))"
  using assms by (auto simp: improve_def push_def Let_def split: option.splits)

lemma relax_frame:
  assumes "relax v (u, w) st = Inr st'"
  shows "dist st' = dist st"
    and "entry_node ` set (fringe st') \<subseteq> insert u (entry_node ` set (fringe st))"
proof -
  from assms have "st' = st \<or> (\<exists>dv. dist st v = Some dv \<and> improve v u (dv + w) st = Inr st')"
    by (simp add: relax_def Let_def split: option.splits if_splits)
  then consider "st' = st" | x where "improve v u x st = Inr st'"
    by blast
  then have "dist st' = dist st \<and>
      entry_node ` set (fringe st') \<subseteq> insert u (entry_node ` set (fringe st))"
  proof cases
    case 1
    then show ?thesis by auto
  next
    case 2
    from improve_frame[OF 2] show ?thesis by (auto simp: entry_node_def)
  qed
  then show "dist st' = dist st"
    and "entry_node ` set (fringe st') \<subseteq> insert u (entry_node ` set (fringe st))"
    by auto
qed

lemma relax_all_frame:
  assumes "relax_all v es st = Inr st'"
  shows "dist st' = dist st \<and>
         entry_node ` set (fringe st') \<subseteq> fst ` set es \<union> entry_node ` set (fringe st)"
  using assms
proof (induction es arbitrary: st)
  case Nil
  then show ?case by simp
next
  case (Cons e es)
  obtain u w where e: "e = (u, w)" by (cases e)
  from Cons.prems obtain st1 where r: "relax v (u, w) st = Inr st1"
    and rest: "relax_all v es st1 = Inr st'"
    by (auto simp: e split: sum.splits)
  from relax_frame[OF r] have a: "dist st1 = dist st"
    and b: "entry_node ` set (fringe st1) \<subseteq> insert u (entry_node ` set (fringe st))"
    by auto
  from Cons.IH[OF rest] have a': "dist st' = dist st1"
    and b': "entry_node ` set (fringe st') \<subseteq> fst ` set es \<union> entry_node ` set (fringe st1)"
    by auto
  have "entry_node ` set (fringe st') \<subseteq> insert u (fst ` set es) \<union> entry_node ` set (fringe st)"
    using b b' by (rule_tac subsetI) (auto dest!: subsetD)
  moreover have "fst ` set (e # es) = insert u (fst ` set es)" by (simp add: e)
  ultimately show ?case using a a' by simp
qed

lemma succ_in_adj: "succ G v = Inr nbrs \<Longrightarrow> (v, nbrs) \<in> set (adj G)"
  by (auto simp: succ_def split: option.splits dest: map_of_SomeD)

lemma succ_nbr_nodes:
  assumes "succ G v = Inr nbrs"
  shows "fst ` set nbrs \<subseteq> nbr_nodes G"
proof
  fix u assume "u \<in> fst ` set nbrs"
  then have "u \<in> set (map fst nbrs)" by simp
  moreover have "map fst nbrs \<in> set (map (\<lambda>(n, nbrs). map fst nbrs) (adj G))"
    using succ_in_adj[OF assms] by force
  ultimately show "u \<in> nbr_nodes G"
    unfolding nbr_nodes_def set_concat by blast
qed

lemma finite_pending: "finite (pending G st)"
  by (simp add: pending_def nbr_nodes_def del: set_concat)

lemma pending_skip:
  assumes "fringe st \<noteq> []" and "heappop (fringe st) = (m, fr)"
  shows "pending G (st\<lparr>fringe := fr\<rparr>) \<subseteq> pending G st"
  using heappop_subset[OF assms] by (auto simp: pending_def)

lemma pending_settle:
  assumes ne: "fringe st \<noteq> []" and pop: "heappop (fringe st) = ((d, k, v), fr)"
    and fresh: "dist st v = None"
    and nb: "succ G v = Inr nbrs"
    and rel: "relax_all v nbrs (st\<lparr>dist := (dist st)(v \<mapsto> d), fringe := fr\<rparr>) = Inr st2"
  shows "pending G st2 \<subset> pending G st"
proof -
  from heappop_in(1)[OF ne pop] have vin: "v \<in> entry_node ` set (fringe st)"
    by (force simp: entry_node_def)
  from relax_all_frame[OF rel] have d2: "dist st2 = (dist st)(v \<mapsto> d)"
    and f2: "entry_node ` set (fringe st2) \<subseteq> fst ` set nbrs \<union> entry_node ` set fr"
    by auto
  from heappop_subset[OF ne pop] have "entry_node ` set fr \<subseteq> entry_node ` set (fringe st)"
    by auto
  with f2 succ_nbr_nodes[OF nb]
  have "entry_node ` set (fringe st2) \<subseteq> nbr_nodes G \<union> entry_node ` set (fringe st)"
    by blast
  then have "pending G st2 \<subseteq> pending G st - {v}"
    unfolding pending_def d2 by auto
  moreover have "v \<in> pending G st"
    using vin fresh by (auto simp: pending_def)
  ultimately show ?thesis by auto
qed


text \<open>The \<open>while fringe\<close> loop of \<open>_dijkstra_multisource\<close>, with its \<open>break\<close> at the target.\<close>

function dijkstra_loop :: "graph \<Rightarrow> node \<Rightarrow> dstate \<Rightarrow> error + dstate" where
  "dijkstra_loop G target st =
     (if fringe st = [] then Inr st
      else (case heappop (fringe st) of
        ((d, k, v), fr) \<Rightarrow>
          (if dist st v \<noteq> None then dijkstra_loop G target (st\<lparr>fringe := fr\<rparr>)
           else (let st1 = st\<lparr>dist := (dist st)(v \<mapsto> d), fringe := fr\<rparr>
                 in (if v = target then Inr st1
                     else (case succ G v of
                             Inl err \<Rightarrow> Inl err
                           | Inr nbrs \<Rightarrow>
                              (case relax_all v nbrs st1 of
                                 Inl err \<Rightarrow> Inl err
                               | Inr st2 \<Rightarrow> dijkstra_loop G target st2)))))))"
  by pat_completeness auto

termination dijkstra_loop
proof (relation "measures [\<lambda>(G, t, st). card (pending G st), \<lambda>(G, t, st). length (fringe st)]",
       goal_cases)
  case 1
  then show ?case by simp
next
  case (2 G target st x fr e1 e2 k v)
  have pop: "heappop (fringe st) = ((e1, k, v), fr)"
    using 2(2)[symmetric] 2(3)[symmetric] 2(4)[symmetric] by simp
  from pending_skip[OF 2(1) pop]
  have "card (pending G (st\<lparr>fringe := fr\<rparr>)) \<le> card (pending G st)"
    by (intro card_mono finite_pending)
  moreover from heappop_shorter[OF 2(1) pop] have "length fr < length (fringe st)" .
  ultimately show ?case by auto
next
  case (3 G target st x fr e1 e2 k v st1 nbrs st2)
  have pop: "heappop (fringe st) = ((e1, k, v), fr)"
    using 3(2)[symmetric] 3(3)[symmetric] 3(4)[symmetric] by simp
  from 3(5) have fresh: "dist st v = None" by simp
  have rel: "relax_all v nbrs (st\<lparr>dist := (dist st)(v \<mapsto> e1), fringe := fr\<rparr>) = Inr st2"
    using 3(6) 3(9) by simp
  have "succ G v = Inr nbrs" using 3(8) by simp
  from pending_settle[OF 3(1) pop fresh this rel] have "pending G st2 \<subset> pending G st" .
  then have "card (pending G st2) < card (pending G st)"
    by (intro psubset_card_mono finite_pending)
  then show ?case by simp
qed


declare dijkstra_loop.simps [simp del]

text \<open>\<open>_dijkstra_multisource(G, sources, weight, paths=paths, target=target)\<close>: every
  source is seen at distance 0 and pushed, then the loop runs. The final state holds the
  returned \<open>dist\<close> and the caller's \<open>paths\<close> dictionary as the loop left it.\<close>

definition init_state :: "(node \<rightharpoonup> node list) option \<Rightarrow> dstate" where
  "init_state ps = \<lparr>dist = Map.empty, seen = Map.empty, paths = ps, fringe = [], c = 0\<rparr>"

definition add_source :: "node \<Rightarrow> dstate \<Rightarrow> dstate" where
  "add_source s st = push 0 s (st\<lparr>seen := (seen st)(s \<mapsto> 0)\<rparr>)"

definition dijkstra_multisource ::
  "graph \<Rightarrow> node list \<Rightarrow> (node \<rightharpoonup> node list) option \<Rightarrow> node \<Rightarrow> error + dstate" where
  "dijkstra_multisource G sources ps target =
     dijkstra_loop G target (fold add_source sources (init_state ps))"

text \<open>\<open>multi_source_dijkstra(G, sources, target)\<close>, which \<open>single_source_dijkstra\<close> calls
  with \<open>{source}\<close>: only the sources are checked to be nodes; a target that was never
  reached is a \<open>KeyError\<close> on \<open>dist[target]\<close>, re-raised as \<open>NetworkXNoPath\<close>.\<close>

definition multi_source_dijkstra ::
  "graph \<Rightarrow> node list \<Rightarrow> node \<Rightarrow> error + (real \<times> node list)" where
  "multi_source_dijkstra G sources target =
     (if sources = [] then Inl ValueError
      else if \<exists>s \<in> set sources. \<not> has_node G s then Inl NodeNotFound
      else if target \<in> set sources then Inr (0, [target])
      else (case dijkstra_multisource G sources
                   (Some (fold (\<lambda>s m. m(s \<mapsto> [s])) sources Map.empty)) target of
              Inl err \<Rightarrow> Inl err
            | Inr st \<Rightarrow>
               (case dist st target of
                  None \<Rightarrow> Inl NetworkXNoPath
                | Some d \<Rightarrow>
                   (case paths st of
                      None \<Rightarrow> Inl KeyError
                    | Some ps \<Rightarrow>
                       (case ps target of
                          None \<Rightarrow> Inl NetworkXNoPath
                        | Some p \<Rightarrow> Inr (d, p))))))"

definition single_source_dijkstra :: "graph \<Rightarrow> node \<Rightarrow> node \<Rightarrow> error + (real \<times> node list)" where
  "single_source_dijkstra G source target = multi_source_dijkstra G [source] target"

definition dijkstra_path :: "graph \<Rightarrow> node \<Rightarrow> node \<Rightarrow> error + node list" where
  "dijkstra_path G source target =
     (case single_source_dijkstra G source target of
        Inl err \<Rightarrow> Inl err
      | Inr (len, p) \<Rightarrow> Inr p)"

definition dijkstra_path_length :: "graph \<Rightarrow> node \<Rightarrow> node \<Rightarrow> error + real" where
  "dijkstra_path_length G source target =
     (if \<not> has_node G source then Inl NodeNotFound
      else if source = target then Inr 0
      else (case dijkstra_multisource G [source] None target of
              Inl err \<Rightarrow> Inl err
            | Inr st \<Rightarrow>
               (case dist st target of
                  None \<Rightarrow> Inl NetworkXNoPath
                | Some d \<Rightarrow> Inr d)))"

section \<open>\<open>compute_shortest_paths\<close>\<close>

text \<open>\<open>str(n)\<close> for a Python int and \<open>' -> '.join(...)\<close>.\<close>

fun str_nat :: "nat \<Rightarrow> string" where
  "str_nat n =
     (if n < 10 then [''0123456789'' ! n]
      else str_nat (n div 10) @ [''0123456789'' ! (n mod 10)])"

declare str_nat.simps [simp del]

definition str :: "int \<Rightarrow> string" where
  "str i = (if i < 0 then CHR ''-'' # str_nat (nat (- i)) else str_nat (nat i))"

fun join :: "string \<Rightarrow> string list \<Rightarrow> string" where
  "join sep [] = []"
| "join sep [x] = x"
| "join sep (x # y # ys) = x @ sep @ join sep (y # ys)"

text \<open>\<open>total_weight\<close> is \<open>float(path_length)\<close> or \<open>float('inf')\<close>.\<close>

datatype pyfloat = Finite real | Infinity

record route_result =
  start :: node
  goal :: node
  path :: "node list option"
  total_weight :: pyfloat
  path_description :: string

definition found :: "node \<Rightarrow> node \<Rightarrow> node list \<Rightarrow> real \<Rightarrow> route_result" where
  "found source target p len =
     \<lparr>start = source, goal = target, path = Some p, total_weight = Finite len,
      path_description = join '' -> '' (map str p)\<rparr>"

definition no_path :: "node \<Rightarrow> node \<Rightarrow> route_result" where
  "no_path source target =
     \<lparr>start = source, goal = target, path = None, total_weight = Infinity,
      path_description = ''No path found''\<rparr>"

text \<open>The \<open>try\<close> statement of the loop body: only \<open>NetworkXNoPath\<close> is caught.\<close>

definition route :: "graph \<Rightarrow> node \<Rightarrow> node \<Rightarrow> error + route_result" where
  "route G target source =
     (case dijkstra_path G source target of
        Inl err \<Rightarrow> if err = NetworkXNoPath then Inr (no_path source target) else Inl err
      | Inr p \<Rightarrow>
         (case dijkstra_path_length G source target of
            Inl err \<Rightarrow> if err = NetworkXNoPath then Inr (no_path source target) else Inl err
          | Inr len \<Rightarrow> Inr (found source target p len)))"

text \<open>\<open>for source_node in G.nodes()\<close>, filling the dictionary \<open>paths_info\<close>.\<close>

type_synonym route_table = "(node \<times> route_result) list"

fun paths_loop :: "graph \<Rightarrow> node \<Rightarrow> node list \<Rightarrow> route_table \<Rightarrow> error + route_table" where
  "paths_loop G target [] paths_info = Inr paths_info"
| "paths_loop G target (source # rest) paths_info =
     (if source = target then paths_loop G target rest paths_info
      else (case route G target source of
              Inl err \<Rightarrow> Inl err
            | Inr r \<Rightarrow> paths_loop G target rest (AList.update source r paths_info)))"

definition compute_shortest_paths :: "graph \<Rightarrow> node \<Rightarrow> error + route_table" where
  "compute_shortest_paths G target = paths_loop G target (nodes G) []"

section \<open>Routes, valid graphs and results\<close>

text \<open>The weight stored for the edge from \<open>u\<close> to \<open>v\<close> (\<open>G[u][v]['weight']\<close>), the total
  weight of a route given as a list of nodes (\<open>None\<close> when two consecutive nodes are not
  joined by an edge), and what makes a list a route from one node to another.\<close>

definition edge_weight :: "graph \<Rightarrow> node \<Rightarrow> node \<Rightarrow> real option" where
  "edge_weight G u v = (case map_of (adj G) u of None \<Rightarrow> None | Some nbrs \<Rightarrow> map_of nbrs v)"

fun route_weight :: "graph \<Rightarrow> node list \<Rightarrow> real option" where
  "route_weight G [] = None"
| "route_weight G [x] = (if x \<in> set (nodes G) then Some 0 else None)"
| "route_weight G (x # y # ys) =
     (case edge_weight G x y of
        None \<Rightarrow> None
      | Some w \<Rightarrow> (case route_weight G (y # ys) of None \<Rightarrow> None | Some r \<Rightarrow> Some (w + r)))"

definition is_route :: "graph \<Rightarrow> node \<Rightarrow> node \<Rightarrow> node list \<Rightarrow> real \<Rightarrow> bool" where
  "is_route G a b p d = (p \<noteq> [] \<and> hd p = a \<and> last p = b \<and> route_weight G p = Some d)"

text \<open>The invariants of the data model: the two dictionaries have the same keys, every
  neighbour is a node other than the node itself, every weight is positive, and an edge
  is stored in both directions with one weight.\<close>

definition valid_nbr :: "graph \<Rightarrow> node \<Rightarrow> node \<times> real \<Rightarrow> bool" where
  "valid_nbr G u e =
     (case e of (v, w) \<Rightarrow> v \<noteq> u \<and> v \<in> set (nodes G) \<and> 0 < w \<and> edge_weight G v u = Some w)"

definition valid_adj :: "graph \<Rightarrow> node \<times> (node \<times> real) list \<Rightarrow> bool" where
  "valid_adj G a = (case a of (u, nbrs) \<Rightarrow> distinct (map fst nbrs) \<and> list_all (valid_nbr G u) nbrs)"

definition valid_graph :: "graph \<Rightarrow> bool" where
  "valid_graph G =
     (map fst (adj G) = nodes G \<and> distinct (nodes G) \<and> list_all (valid_adj G) (adj G))"

definition valid_edge :: "graph \<Rightarrow> node \<times> node \<times> real \<Rightarrow> bool" where
  "valid_edge G e =
     (case e of (u, v, w) \<Rightarrow> u \<noteq> v \<and> u \<in> set (nodes G) \<and> v \<in> set (nodes G) \<and> 0 < w)"

definition unordered :: "node \<times> node \<times> real \<Rightarrow> node \<times> node" where
  "unordered e = (case e of (u, v, w) \<Rightarrow> (min u v, max u v))"

text \<open>\<open>Graph.remove_edge(u, v)\<close>, and the removal of every edge of one weight:
  \<open>G.remove_edges_from([(u, v) for u, v, w in G.edges(data='weight') if w == x])\<close>.\<close>

definition remove_edge :: "node \<times> node \<Rightarrow> graph \<Rightarrow> graph" where
  "remove_edge e G =
     (case e of (u, v) \<Rightarrow>
        G\<lparr>adj := AList.map_entry v (AList.delete u) (AList.map_entry u (AList.delete v) (adj G))\<rparr>)"

definition remove_edges_of_weight :: "real \<Rightarrow> graph \<Rightarrow> graph" where
  "remove_edges_of_weight x G =
     fold remove_edge (map (\<lambda>(u, v, w). (u, v)) (filter (\<lambda>(u, v, w). w = x) (edges G))) G"


definition lookup :: "error + route_table \<Rightarrow> node \<Rightarrow> route_result option" where
  "lookup t n = (case t of Inl err \<Rightarrow> None | Inr tbl \<Rightarrow> map_of tbl n)"

definition distances :: "error + route_table \<Rightarrow> (node \<times> pyfloat) list" where
  "distances t = (case t of Inl err \<Rightarrow> [] | Inr tbl \<Rightarrow> map (\<lambda>(n, r). (n, total_weight r)) tbl)"

text \<open>The two dictionaries of a graph have the same keys.\<close>

definition same_keys :: "graph \<Rightarrow> bool" where
  "same_keys G = (fst ` set (adj G) = set (nodes G))"

section \<open>The invariant of the Dijkstra loop\<close>

text \<open>What holds of the state each time the \<open>while\<close> loop tests the fringe, for a run from
  source \<open>s\<close> with a paths dictionary: every seen node has a recorded path from \<open>s\<close> of the
  seen weight; a settled node keeps its seen distance; a seen, unsettled node waits in the
  fringe with its seen distance; a fringe entry is never below the seen distance of its
  node, nor below a settled distance; a settled distance is at most the weight of any
  route; and every edge out of a settled node has been relaxed, except the edges in \<open>E\<close>,
  which are those of the node being processed that the \<open>for\<close> loop has not reached.\<close>

definition path_ok :: "graph \<Rightarrow> node \<Rightarrow> dstate \<Rightarrow> bool" where
  "path_ok G s st =
     (\<exists>ps. paths st = Some ps \<and>
        (\<forall>v x. seen st v = Some x \<longrightarrow> (\<exists>p. ps v = Some p \<and> is_route G s v p x)))"

definition settled_ok :: "dstate \<Rightarrow> bool" where
  "settled_ok st = (\<forall>v d. dist st v = Some d \<longrightarrow> seen st v = Some d)"

definition queued_ok :: "dstate \<Rightarrow> bool" where
  "queued_ok st =
     (\<forall>v x. seen st v = Some x \<longrightarrow> dist st v = None \<longrightarrow> (\<exists>k. (x, k, v) \<in> set (fringe st)))"

definition fringe_ok :: "dstate \<Rightarrow> bool" where
  "fringe_ok st =
     (\<forall>d k v. (d, k, v) \<in> set (fringe st) \<longrightarrow> (\<exists>x. seen st v = Some x \<and> x \<le> d))"

definition mono_ok :: "dstate \<Rightarrow> bool" where
  "mono_ok st = (\<forall>v d e. dist st v = Some d \<longrightarrow> e \<in> set (fringe st) \<longrightarrow> d \<le> fst e)"

definition opt_ok :: "graph \<Rightarrow> node \<Rightarrow> dstate \<Rightarrow> bool" where
  "opt_ok G s st = (\<forall>v d q W. dist st v = Some d \<longrightarrow> is_route G s v q W \<longrightarrow> d \<le> W)"

definition closed_ok :: "graph \<Rightarrow> (node \<times> node \<times> real) set \<Rightarrow> dstate \<Rightarrow> bool" where
  "closed_ok G E st =
     (\<forall>v d nbrs u w. dist st v = Some d \<longrightarrow> succ G v = Inr nbrs \<longrightarrow> (u, w) \<in> set nbrs \<longrightarrow>
        (v, u, w) \<notin> E \<longrightarrow> (\<exists>x. seen st u = Some x \<and> x \<le> d + w))"

definition dinv :: "graph \<Rightarrow> node \<Rightarrow> (node \<times> node \<times> real) set \<Rightarrow> dstate \<Rightarrow> bool" where
  "dinv G s E st =
     (path_ok G s st \<and> settled_ok st \<and> queued_ok st \<and> fringe_ok st \<and> mono_ok st \<and>
      opt_ok G s st \<and> closed_ok G E st \<and> seen st s = Some 0)"

text \<open>What holds when the loop has ended: at the \<open>break\<close> the target is settled, otherwise
  the fringe is empty and every edge out of a settled node has been relaxed.\<close>

definition dpost :: "graph \<Rightarrow> node \<Rightarrow> node \<Rightarrow> dstate \<Rightarrow> bool" where
  "dpost G s t st =
     ((\<exists>E. dinv G s E st) \<and> (dist st t = None \<longrightarrow> dinv G s {} st \<and> fringe st = []))"

section \<open>The constructed graph\<close>

lemma grid_graph:
  "fst create_grid_graph = \<lparr>node_attr =
    [(0, Some (4, 0)), (1, Some (3, 0)), (2, Some (3, 1)), (3, Some (4, 1)),
     (4, Some (4, 2)), (5, Some (3, 2)), (6, Some (1, 2)), (7, Some (0, 2)),
     (8, Some (0, 1)), (9, Some (0, 0)), (10, Some (1, 0)), (11, Some (1, 1))],
    adj =
      [(0, [(1, 1 / 2), (3, 1)]), (1, [(0, 1 / 2), (2, 1), (10, 2)]),
       (2, [(1, 1), (3, 1 / 2), (5, 1), (11, 2)]),
       (3, [(0, 1), (2, 1 / 2), (4, 1)]), (4, [(3, 1), (5, 1 / 2)]),
       (5, [(2, 1), (4, 1 / 2), (6, 2)]), (6, [(7, 2), (11, 1), (5, 2)]),
       (7, [(6, 2), (8, 1)]), (8, [(7, 1), (9, 1), (11, 2)]), (9, [(8, 1), (10, 2)]),
       (10, [(9, 2), (11, 1), (1, 2)]), (11, [(6, 1), (8, 2), (10, 1), (2, 2)])]\<rparr>"
  by (simp add: create_grid_graph_def build_graph_def add_nodes_def add_edges_def
      node_positions_def edges_with_weights_def add_node_def add_edge_def ensure_node_def
      set_adj_def has_node_def nodes_def empty_graph_def)

lemma grid_valid: "valid_graph (fst create_grid_graph)"
  unfolding grid_graph by code_simp

lemma grid_edges: "edges (fst create_grid_graph) =
  [(0, 1, 1 / 2), (0, 3, 1), (1, 2, 1), (1, 10, 2), (2, 3, 1 / 2), (2, 5, 1),
  (2, 11, 2), (3, 4, 1), (4, 5, 1 / 2), (5, 6, 2), (6, 7, 2), (6, 11, 1),
  (7, 8, 1), (8, 9, 1), (8, 11, 2), (9, 10, 2), (10, 11, 1)]"
  unfolding grid_graph by (simp add: edges_def)

text \<open>C9: the graph produced by \<open>create_grid_graph\<close> satisfies the structural invariants:
  every edge joins two distinct nodes of the node set, no two edges join the same
  unordered pair of nodes (neither in the graph nor in the literal it is built from, so
  all 17 edges of the literal are kept), and every edge weight is strictly positive;
  every edge is stored in both directions with the same weight.\<close>

theorem create_grid_graph_invariants:
  "valid_graph (fst create_grid_graph)
   \<and> list_all (valid_edge (fst create_grid_graph)) (edges (fst create_grid_graph))
   \<and> distinct (map unordered (edges (fst create_grid_graph)))
   \<and> length (edges (fst create_grid_graph)) = length edges_with_weights
   \<and> distinct (map unordered edges_with_weights)"
  unfolding grid_edges using grid_valid
  by (simp add: valid_edge_def unordered_def edges_with_weights_def grid_graph nodes_def)

section \<open>Construction checks nothing\<close>

lemma same_keys_empty: "same_keys empty_graph"
  by (simp add: same_keys_def empty_graph_def nodes_def)

lemma same_keys_add_node: "same_keys G \<Longrightarrow> same_keys (add_node n pos G)"
  by (auto simp: same_keys_def add_node_def nodes_def has_node_def dom_update)

lemma same_keys_ensure_node: "same_keys G \<Longrightarrow> same_keys (ensure_node n G)"
  by (auto simp: same_keys_def ensure_node_def nodes_def has_node_def dom_update)

lemma has_node_ensure_node: "has_node (ensure_node n G) m = (m = n \<or> has_node G m)"
  by (auto simp: ensure_node_def has_node_def nodes_def dom_update)

lemma same_keys_set_adj: "same_keys G \<Longrightarrow> same_keys (set_adj u v w G)"
  by (simp add: same_keys_def set_adj_def nodes_def dom_map_entry)

lemma has_node_set_adj: "has_node (set_adj u v w G) m = has_node G m"
  by (simp add: set_adj_def has_node_def nodes_def)

lemma same_keys_add_edge: "same_keys G \<Longrightarrow> same_keys (add_edge e G)"
  by (cases e) (simp add: add_edge_def same_keys_set_adj same_keys_ensure_node)

lemma same_keys_add_nodes: "same_keys G \<Longrightarrow> same_keys (add_nodes ps G)"
  unfolding add_nodes_def
  by (induction ps arbitrary: G) (auto simp: same_keys_add_node)

lemma same_keys_add_edges: "same_keys G \<Longrightarrow> same_keys (add_edges es G)"
  unfolding add_edges_def
  by (induction es arbitrary: G) (auto simp: same_keys_add_edge)

lemma edge_weight_set_adj:
  assumes "u \<in> fst ` set (adj G)"
  shows "edge_weight (set_adj u v w G) a b =
           (if a = u \<and> b = v then Some w else edge_weight G a b)"
proof -
  from assms obtain nbrs where "map_of (adj G) u = Some nbrs"
    by (metis domD dom_map_of_conv_image_fst)
  then show ?thesis
    by (auto simp: edge_weight_def set_adj_def map_of_map_entry update_conv' split: option.splits)
qed

lemma add_edge_stores:
  assumes "same_keys G"
  shows "has_node (add_edge (u, v, w) G) u \<and> has_node (add_edge (u, v, w) G) v
         \<and> edge_weight (add_edge (u, v, w) G) u v = Some w
         \<and> edge_weight (add_edge (u, v, w) G) v u = Some w"
proof -
  let ?G1 = "ensure_node v (ensure_node u G)"
  have sk: "same_keys ?G1" using assms by (simp add: same_keys_ensure_node)
  have hn: "has_node ?G1 u" "has_node ?G1 v" by (simp_all add: has_node_ensure_node)
  then have ku: "u \<in> fst ` set (adj ?G1)" and kv: "v \<in> fst ` set (adj ?G1)"
    using sk by (simp_all add: same_keys_def has_node_def)
  have kv': "v \<in> fst ` set (adj (set_adj u v w ?G1))"
    using kv by (simp add: set_adj_def dom_map_entry)
  show ?thesis
    using hn by (simp add: add_edge_def has_node_set_adj edge_weight_set_adj[OF kv']
        edge_weight_set_adj[OF ku])
qed

text \<open>C3, as stated, fails: the loop over the edge literal raises nothing.
  An edge naming node 99, which is not in the node list, adds node 99 and the edge; a
  weight of zero and a negative weight are stored as given.\<close>

theorem construction_accepts_malformed_edges:
  "has_node (build_graph node_positions [(0, 99, 1)]) 99
   \<and> edge_weight (build_graph node_positions [(0, 99, 1)]) 0 99 = Some 1
   \<and> edge_weight (build_graph node_positions [(0, 1, 0)]) 0 1 = Some 0
   \<and> edge_weight (build_graph node_positions [(0, 1, - 1)]) 0 1 = Some (- 1)"
  by (simp add: build_graph_def add_nodes_def add_edges_def
      node_positions_def add_node_def add_edge_def ensure_node_def
      set_adj_def has_node_def nodes_def empty_graph_def edge_weight_def)

text \<open>C3, amended: graph construction validates nothing and raises no error: whatever
  the node list and the edges before it, an edge \<open>(u, v, w)\<close> makes \<open>u\<close> and \<open>v\<close> nodes of
  the graph, whether or not they were in the node list, and stores the weight \<open>w\<close>,
  whatever its sign, in both directions.\<close>

theorem construction_stores_every_edge:
  "has_node (build_graph ps (es @ [(u, v, w)])) u
   \<and> has_node (build_graph ps (es @ [(u, v, w)])) v
   \<and> edge_weight (build_graph ps (es @ [(u, v, w)])) u v = Some w
   \<and> edge_weight (build_graph ps (es @ [(u, v, w)])) v u = Some w"
proof -
  have "same_keys (add_edges es (add_nodes ps empty_graph))"
    by (simp add: same_keys_add_edges same_keys_add_nodes same_keys_empty)
  from add_edge_stores[OF this, of u v w] show ?thesis
    by (simp add: build_graph_def add_edges_def)
qed

section \<open>Routes and their weights\<close>

lemma edge_weight_succ:
  assumes "edge_weight G v u = Some w"
  shows "\<exists>nbrs. succ G v = Inr nbrs \<and> (u, w) \<in> set nbrs"
  using assms
  by (auto simp: edge_weight_def succ_def split: option.splits dest: map_of_SomeD)

lemma valid_succ:
  assumes "valid_graph G" and "v \<in> set (nodes G)"
  shows "\<exists>nbrs. succ G v = Inr nbrs"
proof -
  from assms have "v \<in> fst ` set (adj G)"
    by (metis valid_graph_def set_map)
  then obtain nbrs where "map_of (adj G) v = Some nbrs"
    by (metis domD dom_map_of_conv_image_fst)
  then show ?thesis by (simp add: succ_def)
qed

lemma valid_succ_node:
  assumes "valid_graph G" and "succ G v = Inr nbrs"
  shows "v \<in> set (nodes G)"
proof -
  from succ_in_adj[OF assms(2)] have "v \<in> fst ` set (adj G)" by force
  with assms(1) show ?thesis by (metis valid_graph_def set_map)
qed

lemma valid_nbr_facts:
  assumes "valid_graph G" and "succ G v = Inr nbrs" and "(u, w) \<in> set nbrs"
  shows "u \<in> set (nodes G)" and "0 < w" and "edge_weight G u v = Some w"
    and "edge_weight G v u = Some w" and "u \<noteq> v"
proof -
  from succ_in_adj[OF assms(2)] have m: "(v, nbrs) \<in> set (adj G)" .
  with assms(1) have va: "valid_adj G (v, nbrs)"
    by (auto simp: valid_graph_def list_all_iff)
  then have dn: "distinct (map fst nbrs)" and "valid_nbr G v (u, w)"
    using assms(3) by (auto simp: valid_adj_def list_all_iff)
  then show "u \<in> set (nodes G)" "0 < w" "edge_weight G u v = Some w" "u \<noteq> v"
    by (auto simp: valid_nbr_def)
  from assms(2) have "map_of (adj G) v = Some nbrs"
    by (auto simp: succ_def split: option.splits)
  moreover from dn assms(3) have "map_of nbrs u = Some w" by simp
  ultimately show "edge_weight G v u = Some w" by (simp add: edge_weight_def)
qed

lemma valid_edge_facts:
  assumes "valid_graph G" and "edge_weight G v u = Some w"
  shows "u \<in> set (nodes G)" and "v \<in> set (nodes G)" and "0 < w"
    and "edge_weight G u v = Some w"
proof -
  from edge_weight_succ[OF assms(2)] obtain nbrs
    where s: "succ G v = Inr nbrs" and m: "(u, w) \<in> set nbrs" by blast
  from valid_nbr_facts[OF assms(1) s m] valid_succ_node[OF assms(1) s]
  show "u \<in> set (nodes G)" "v \<in> set (nodes G)" "0 < w" "edge_weight G u v = Some w"
    by auto
qed

lemma route_weight_nonneg:
  "valid_graph G \<Longrightarrow> route_weight G p = Some W \<Longrightarrow> 0 \<le> W"
proof (induction G p arbitrary: W rule: route_weight.induct)
  case (3 G x y ys)
  from "3.prems"(2) obtain w r where w: "edge_weight G x y = Some w"
    and r: "route_weight G (y # ys) = Some r" and W: "W = w + r"
    by (auto split: option.splits)
  from "3.IH"[OF w "3.prems"(1) r] valid_edge_facts(3)[OF "3.prems"(1) w] W
  show ?case by simp
qed (auto split: if_splits)

lemma route_weight_last_node:
  "route_weight G p = Some W \<Longrightarrow> last p \<in> set (nodes G)"
  by (induction G p arbitrary: W rule: route_weight.induct)
     (auto split: option.splits if_splits)

lemma route_weight_snoc:
  "valid_graph G \<Longrightarrow> route_weight G p = Some W \<Longrightarrow>
   edge_weight G (last p) u = Some w \<Longrightarrow> route_weight G (p @ [u]) = Some (W + w)"
proof (induction G p arbitrary: W rule: route_weight.induct)
  case (1 G)
  then show ?case by simp
next
  case (2 G x)
  then show ?case
    using valid_edge_facts(1)[of G x u w] by (auto split: if_splits)
next
  case (3 G x y ys)
  from "3.prems"(2) obtain w' r where w': "edge_weight G x y = Some w'"
    and r: "route_weight G (y # ys) = Some r" and W: "W = w' + r"
    by (auto split: option.splits)
  from "3.prems"(3) have "edge_weight G (last (y # ys)) u = Some w" by simp
  from "3.IH"[OF w' "3.prems"(1) r this]
  have "route_weight G ((y # ys) @ [u]) = Some (r + w)" .
  then show ?case using w' W by simp
qed

lemma route_weight_snoc_inv:
  "valid_graph G \<Longrightarrow> p \<noteq> [] \<Longrightarrow> route_weight G (p @ [u]) = Some W \<Longrightarrow>
     \<exists>W' w. route_weight G p = Some W' \<and> edge_weight G (last p) u = Some w \<and> W = W' + w"
proof (induction G p arbitrary: W rule: route_weight.induct)
  case (1 G)
  then show ?case by simp
next
  case (2 G x)
  from "2.prems"(3) obtain w where w: "edge_weight G x u = Some w" and W: "W = w"
    by (auto split: option.splits if_splits)
  from valid_edge_facts(2)[OF "2.prems"(1) w] w W show ?case by simp
next
  case (3 G x y ys)
  from "3.prems"(3) obtain w' r where w': "edge_weight G x y = Some w'"
    and r: "route_weight G ((y # ys) @ [u]) = Some r" and W: "W = w' + r"
    by (auto split: option.splits)
  from "3.IH"[OF w' "3.prems"(1) _ r] obtain W' w where "route_weight G (y # ys) = Some W'"
    "edge_weight G (last (y # ys)) u = Some w" "r = W' + w" by auto
  then show ?case using w' W by simp
qed



lemma is_route_nonneg: "valid_graph G \<Longrightarrow> is_route G a b p d \<Longrightarrow> 0 \<le> d"
  by (auto simp: is_route_def dest: route_weight_nonneg)

lemma is_route_single: "a \<in> set (nodes G) \<Longrightarrow> is_route G a a [a] 0"
  by (simp add: is_route_def)

lemma is_route_snoc:
  assumes "valid_graph G" and "is_route G a b p d" and "edge_weight G b u = Some w"
  shows "is_route G a u (p @ [u]) (d + w)"
  using assms route_weight_snoc[of G p d u w]
  by (auto simp: is_route_def)

lemma is_route_end_node: "is_route G a b p d \<Longrightarrow> b \<in> set (nodes G)"
  using route_weight_last_node by (auto simp: is_route_def)

section \<open>The loop keeps its invariant\<close>

lemma dinvD:
  assumes "dinv G s E st"
  shows "path_ok G s st" and "settled_ok st" and "queued_ok st" and "fringe_ok st"
    and "mono_ok st" and "opt_ok G s st" and "closed_ok G E st" and "seen st s = Some 0"
  using assms by (simp_all add: dinv_def)

lemma settled_okD: "settled_ok st \<Longrightarrow> dist st v = Some d \<Longrightarrow> seen st v = Some d"
  by (simp add: settled_ok_def)

lemma queued_okD:
  "queued_ok st \<Longrightarrow> seen st v = Some x \<Longrightarrow> dist st v = None \<Longrightarrow> \<exists>k. (x, k, v) \<in> set (fringe st)"
  by (simp add: queued_ok_def)

lemma fringe_okD:
  "fringe_ok st \<Longrightarrow> (d, k, v) \<in> set (fringe st) \<Longrightarrow> \<exists>x. seen st v = Some x \<and> x \<le> d"
  unfolding fringe_ok_def by blast

lemma mono_okD: "mono_ok st \<Longrightarrow> dist st v = Some d \<Longrightarrow> e \<in> set (fringe st) \<Longrightarrow> d \<le> fst e"
  unfolding mono_ok_def by blast

lemma opt_okD: "opt_ok G s st \<Longrightarrow> dist st v = Some d \<Longrightarrow> is_route G s v q W \<Longrightarrow> d \<le> W"
  unfolding opt_ok_def by blast

lemma closed_okD:
  "closed_ok G E st \<Longrightarrow> dist st v = Some d \<Longrightarrow> succ G v = Inr nbrs \<Longrightarrow> (u, w) \<in> set nbrs \<Longrightarrow>
   (v, u, w) \<notin> E \<Longrightarrow> \<exists>x. seen st u = Some x \<and> x \<le> d + w"
  unfolding closed_ok_def by blast

lemma path_okD:
  "path_ok G s st \<Longrightarrow> \<exists>ps. paths st = Some ps \<and>
      (\<forall>v x. seen st v = Some x \<longrightarrow> (\<exists>p. ps v = Some p \<and> is_route G s v p x))"
  by (simp add: path_ok_def)

lemma least_le_start: "least m xs \<le> m"
proof (induction xs arbitrary: m)
  case Nil
  then show ?case by simp
next
  case (Cons y ys)
  have "least (if y < m then y else m) ys \<le> (if y < m then y else m)" by (rule Cons.IH)
  also have "\<dots> \<le> m" by (cases "y < m") (simp_all only: if_True if_False order_refl less_imp_le)
  finally show ?case by simp
qed

lemma least_le_mem: "x \<in> set xs \<Longrightarrow> least m xs \<le> x"
proof (induction xs arbitrary: m)
  case Nil
  then show ?case by simp
next
  case (Cons y ys)
  show ?case
  proof (cases "x = y")
    case True
    have "least (if y < m then y else m) ys \<le> (if y < m then y else m)"
      by (rule least_le_start)
    also have "\<dots> \<le> y"
    proof (cases "y < m")
      case True
      then show ?thesis by (simp only: if_True order_refl)
    next
      case False
      then have "m \<le> y" by (simp only: not_less)
      with False show ?thesis by (simp only: if_False)
    qed
    finally show ?thesis using True by simp
  next
    case False
    with Cons.prems have "x \<in> set ys" by simp
    from Cons.IH[OF this] show ?thesis by simp
  qed
qed

lemma least_le: "x \<in> insert m (set xs) \<Longrightarrow> least m xs \<le> x"
proof (cases "x = m")
  case True
  then show ?thesis by (simp only: least_le_start)
next
  case False
  assume "x \<in> insert m (set xs)"
  with False have "x \<in> set xs" by simp
  then show ?thesis by (rule least_le_mem)
qed

lemma heappop_least:
  assumes "fr \<noteq> []" and "heappop fr = (m, fr')" and "e \<in> set fr"
  shows "fst m \<le> fst e"
proof -
  obtain x xs where fr: "fr = x # xs" using assms(1) by (cases fr) auto
  from assms(2) have m: "m = least x xs" by (simp add: heappop_def Let_def fr)
  from assms(3) fr have "e \<in> insert x (set xs)" by simp
  from least_le[OF this] m have "m \<le> e" by simp
  then show ?thesis by (auto simp: less_eq_prod_def)
qed

lemma heappop_rest:
  assumes "fr \<noteq> []" and "heappop fr = (m, fr')" and "e \<in> set fr" and "e \<noteq> m"
  shows "e \<in> set fr'"
  using heappop_in(2)[OF assms(1,2)] assms(3,4) by simp

lemma route_bound:
  assumes vg: "valid_graph G" and inv: "dinv G s {} st"
  shows "is_route G s x q W \<Longrightarrow>
         (\<exists>d. dist st x = Some d \<and> d \<le> W) \<or>
         (\<exists>e \<in> set (fringe st). dist st (entry_node e) = None \<and> fst e \<le> W)"
proof (induction q arbitrary: x W rule: rev_induct)
  case Nil
  then show ?case by (simp add: is_route_def)
next
  case (snoc y q)
  from snoc.prems have xy: "y = x" by (simp add: is_route_def)
  from inv have so: "settled_ok st" and qo: "queued_ok st" and co: "closed_ok G {} st"
    and src: "seen st s = Some 0" by (simp_all add: dinv_def)
  have fin: "\<And>z. seen st x = Some z \<Longrightarrow> z \<le> W \<Longrightarrow> ?case"
  proof -
    fix z assume z: "seen st x = Some z" and zW: "z \<le> W"
    show ?case
    proof (cases "dist st x")
      case None
      with queued_okD[OF qo z] obtain k where "(z, k, x) \<in> set (fringe st)" by blast
      with None zW show ?thesis by (force simp: entry_node_def)
    next
      case (Some d)
      with settled_okD[OF so] z have "d = z" by simp
      with Some zW show ?thesis by simp
    qed
  qed
  show ?case
  proof (cases "q = []")
    case True
    with snoc.prems xy have "x = s" and "W = 0"
      by (auto simp: is_route_def split: if_splits)
    with src fin show ?thesis by simp
  next
    case False
    from snoc.prems have rw: "route_weight G (q @ [x]) = Some W" and hd: "hd (q @ [x]) = s"
      by (simp_all add: is_route_def xy)
    from route_weight_snoc_inv[OF vg False rw] obtain W' w
      where W': "route_weight G q = Some W'" and w: "edge_weight G (last q) x = Some w"
        and W: "W = W' + w" by blast
    from hd False have "hd q = s" by simp
    with False W' have r': "is_route G s (last q) q W'" by (simp add: is_route_def)
    from valid_edge_facts(3)[OF vg w] have wpos: "0 < w" .
    from snoc.IH[OF r'] show ?thesis
    proof
      assume "\<exists>d. dist st (last q) = Some d \<and> d \<le> W'"
      then obtain d where d: "dist st (last q) = Some d" and dW: "d \<le> W'" by blast
      from edge_weight_succ[OF w] obtain nbrs where "succ G (last q) = Inr nbrs"
        and "(x, w) \<in> set nbrs" by blast
      with closed_okD[OF co d] obtain z where "seen st x = Some z" and "z \<le> d + w"
        by blast
      with dW W fin show ?thesis by simp
    next
      assume "\<exists>e \<in> set (fringe st). dist st (entry_node e) = None \<and> fst e \<le> W'"
      then obtain e where "e \<in> set (fringe st)" "dist st (entry_node e) = None" "fst e \<le> W'"
        by blast
      with W wpos show ?thesis by force
    qed
  qed
qed

lemma dinv_init:
  assumes "s \<in> set (nodes G)"
  shows "dinv G s {} (fold add_source [s] (init_state (Some (fold (\<lambda>s m. m(s \<mapsto> [s])) [s] Map.empty))))"
proof -
  let ?st = "fold add_source [s] (init_state (Some (fold (\<lambda>s m. m(s \<mapsto> [s])) [s] Map.empty)))"
  have st: "?st = \<lparr>dist = Map.empty, seen = [s \<mapsto> 0], paths = Some [s \<mapsto> [s]],
                   fringe = [(0, 0, s)], c = Suc 0\<rparr>"
    by (simp add: add_source_def init_state_def push_def)
  have "path_ok G s ?st"
    unfolding st path_ok_def using is_route_single[OF assms] by (auto split: if_splits)
  moreover have "settled_ok ?st" unfolding st settled_ok_def by simp
  moreover have "queued_ok ?st" unfolding st queued_ok_def by (auto split: if_splits)
  moreover have "fringe_ok ?st" unfolding st fringe_ok_def by simp
  moreover have "mono_ok ?st" unfolding st mono_ok_def by simp
  moreover have "opt_ok G s ?st" unfolding st opt_ok_def by simp
  moreover have "closed_ok G {} ?st" unfolding st closed_ok_def by simp
  moreover have "seen ?st s = Some 0" unfolding st by simp
  ultimately show ?thesis unfolding dinv_def by blast
qed

lemma dinv_skip:
  assumes inv: "dinv G s {} st" and ne: "fringe st \<noteq> []"
    and pop: "heappop (fringe st) = ((d, k, v), fr)" and old: "dist st v \<noteq> None"
  shows "dinv G s {} (st\<lparr>fringe := fr\<rparr>)"
proof -
  let ?st = "st\<lparr>fringe := fr\<rparr>"
  have sub: "set fr \<subseteq> set (fringe st)" by (rule heappop_subset[OF ne pop])
  from dinvD(1)[OF inv] have "path_ok G s ?st" by (simp add: path_ok_def)
  moreover from dinvD(2)[OF inv] have "settled_ok ?st" by (simp add: settled_ok_def)
  moreover have "queued_ok ?st"
    unfolding queued_ok_def
  proof (intro allI impI)
    fix u x assume "seen ?st u = Some x" and "dist ?st u = None"
    then have sx: "seen st u = Some x" and du: "dist st u = None" by simp_all
    with queued_okD[OF dinvD(3)[OF inv]] obtain j where j: "(x, j, u) \<in> set (fringe st)"
      by blast
    from du old have "u \<noteq> v" by auto
    then have "(x, j, u) \<noteq> (d, k, v)" by simp
    from heappop_rest[OF ne pop j this] show "\<exists>j. (x, j, u) \<in> set (fringe ?st)" by auto
  qed
  moreover from dinvD(4)[OF inv] sub have "fringe_ok ?st" unfolding fringe_ok_def by simp blast
  moreover from dinvD(5)[OF inv] sub have "mono_ok ?st" unfolding mono_ok_def by simp blast
  moreover from dinvD(6)[OF inv] have "opt_ok G s ?st" by (simp add: opt_ok_def)
  moreover from dinvD(7)[OF inv] have "closed_ok G {} ?st" by (simp add: closed_ok_def)
  moreover from dinvD(8)[OF inv] have "seen ?st s = Some 0" by simp
  ultimately show ?thesis unfolding dinv_def by blast
qed

lemma popped_is_seen:
  assumes inv: "dinv G s {} st" and ne: "fringe st \<noteq> []"
    and pop: "heappop (fringe st) = ((d, k, v), fr)" and new: "dist st v = None"
  shows "seen st v = Some d"
proof -
  from heappop_in(1)[OF ne pop] have m: "(d, k, v) \<in> set (fringe st)" .
  from fringe_okD[OF dinvD(4)[OF inv] m] obtain x where x: "seen st v = Some x" and xd: "x \<le> d"
    by blast
  from queued_okD[OF dinvD(3)[OF inv] x new] obtain j where "(x, j, v) \<in> set (fringe st)"
    by blast
  from heappop_least[OF ne pop this] have "d \<le> x" by simp
  with x xd show ?thesis by simp
qed

lemma dinv_settle:
  assumes vg: "valid_graph G" and inv: "dinv G s {} st" and ne: "fringe st \<noteq> []"
    and pop: "heappop (fringe st) = ((d, k, v), fr)" and new: "dist st v = None"
  shows "dinv G s ({v} \<times> UNIV) (st\<lparr>dist := (dist st)(v \<mapsto> d), fringe := fr\<rparr>)"
    and "\<forall>u x. ((dist st)(v \<mapsto> d)) u = Some x \<longrightarrow> x \<le> d"
proof -
  let ?st = "st\<lparr>dist := (dist st)(v \<mapsto> d), fringe := fr\<rparr>"
  have sub: "set fr \<subseteq> set (fringe st)" by (rule heappop_subset[OF ne pop])
  from heappop_in(1)[OF ne pop] have m: "(d, k, v) \<in> set (fringe st)" .
  have sv: "seen st v = Some d" by (rule popped_is_seen[OF inv ne pop new])
  from dinvD(1)[OF inv] have "path_ok G s ?st" by (simp add: path_ok_def)
  moreover from dinvD(2)[OF inv] sv have "settled_ok ?st" by (simp add: settled_ok_def)
  moreover have "queued_ok ?st"
    unfolding queued_ok_def
  proof (intro allI impI)
    fix u x assume "seen ?st u = Some x" and dn: "dist ?st u = None"
    then have sx: "seen st u = Some x" by simp
    from dn have uv: "u \<noteq> v" and du: "dist st u = None" by (auto split: if_splits)
    from queued_okD[OF dinvD(3)[OF inv] sx du] obtain j where j: "(x, j, u) \<in> set (fringe st)"
      by blast
    from uv have "(x, j, u) \<noteq> (d, k, v)" by simp
    from heappop_rest[OF ne pop j this] show "\<exists>j. (x, j, u) \<in> set (fringe ?st)" by auto
  qed
  moreover from dinvD(4)[OF inv] sub have "fringe_ok ?st" unfolding fringe_ok_def by simp blast
  moreover have "mono_ok ?st"
    unfolding mono_ok_def
  proof (intro allI impI)
    fix u x e assume du: "dist ?st u = Some x" and e: "e \<in> set (fringe ?st)"
    from e sub have e': "e \<in> set (fringe st)" by auto
    show "x \<le> fst e"
    proof (cases "u = v")
      case True
      with du have "x = d" by simp
      with heappop_least[OF ne pop e'] show ?thesis by simp
    next
      case False
      with du have "dist st u = Some x" by simp
      from mono_okD[OF dinvD(5)[OF inv] this e'] show ?thesis .
    qed
  qed
  moreover have "opt_ok G s ?st"
    unfolding opt_ok_def
  proof (intro allI impI)
    fix u x q W assume du: "dist ?st u = Some x" and r: "is_route G s u q W"
    show "x \<le> W"
    proof (cases "u = v")
      case True
      with du have xd: "x = d" by simp
      from route_bound[OF vg inv r] True new obtain e
        where e: "e \<in> set (fringe st)" and eW: "fst e \<le> W" by auto
      from heappop_least[OF ne pop e] eW xd show ?thesis by simp
    next
      case False
      with du have "dist st u = Some x" by simp
      from opt_okD[OF dinvD(6)[OF inv] this r] show ?thesis .
    qed
  qed
  moreover have "closed_ok G ({v} \<times> UNIV) ?st"
    unfolding closed_ok_def
  proof (intro allI impI)
    fix a x nbrs u w
    assume da: "dist ?st a = Some x" and sc: "succ G a = Inr nbrs" and mem: "(u, w) \<in> set nbrs"
      and ex: "(a, u, w) \<notin> {v} \<times> UNIV"
    from ex have "a \<noteq> v" by simp
    with da have "dist st a = Some x" by simp
    from closed_okD[OF dinvD(7)[OF inv] this sc mem]
    have "\<exists>z. seen st u = Some z \<and> z \<le> x + w" by simp
    then show "\<exists>z. seen ?st u = Some z \<and> z \<le> x + w" by simp
  qed
  moreover from dinvD(8)[OF inv] have "seen ?st s = Some 0" by simp
  ultimately show "dinv G s ({v} \<times> UNIV) ?st" unfolding dinv_def by blast
  show "\<forall>u x. ((dist st)(v \<mapsto> d)) u = Some x \<longrightarrow> x \<le> d"
  proof (intro allI impI)
    fix u x assume a: "((dist st)(v \<mapsto> d)) u = Some x"
    show "x \<le> d"
    proof (cases "u = v")
      case True
      with a show ?thesis by simp
    next
      case False
      with a have "dist st u = Some x" by simp
      from mono_okD[OF dinvD(5)[OF inv] this m] show ?thesis by simp
    qed
  qed
qed

lemma improve_result:
  assumes "paths st = Some ps" and "ps v = Some p"
  shows "improve v u x st =
     Inr (st\<lparr>seen := (seen st)(u \<mapsto> x), fringe := (x, c st, u) # fringe st,
              c := Suc (c st), paths := Some (ps(u \<mapsto> p @ [u]))\<rparr>)"
  using assms by (simp add: improve_def push_def Let_def)

lemma dinv_keep:
  assumes inv: "dinv G s ({v} \<times> insert (u, w) R) st" and dv: "dist st v = Some d"
    and sx: "seen st u = Some x" and le: "x \<le> d + w"
  shows "dinv G s ({v} \<times> R) st"
proof -
  have "closed_ok G ({v} \<times> R) st"
    unfolding closed_ok_def
  proof (intro allI impI)
    fix a y nbrs b z
    assume da: "dist st a = Some y" and sc: "succ G a = Inr nbrs" and mem: "(b, z) \<in> set nbrs"
      and ex: "(a, b, z) \<notin> {v} \<times> R"
    show "\<exists>x. seen st b = Some x \<and> x \<le> y + z"
    proof (cases "(a, b, z) = (v, u, w)")
      case True
      with da dv sx le show ?thesis by simp
    next
      case False
      with ex have "(a, b, z) \<notin> {v} \<times> insert (u, w) R" by auto
      from closed_okD[OF dinvD(7)[OF inv] da sc mem this] show ?thesis .
    qed
  qed
  with dinvD[OF inv] show ?thesis unfolding dinv_def by simp
qed

lemma dinv_improve:
  assumes vg: "valid_graph G" and inv: "dinv G s ({v} \<times> insert (u, w) R) st"
    and dv: "dist st v = Some d"
    and maxd: "\<forall>a x. dist st a = Some x \<longrightarrow> x \<le> d"
    and sc: "succ G v = Inr nbrs" and mem: "(u, w) \<in> set nbrs"
    and du: "dist st u = None"
    and better: "\<forall>x. seen st u = Some x \<longrightarrow> d + w < x"
    and ps: "paths st = Some ps" and pv: "ps v = Some p"
  shows "dinv G s ({v} \<times> R)
           (st\<lparr>seen := (seen st)(u \<mapsto> d + w), fringe := (d + w, c st, u) # fringe st,
               c := Suc (c st), paths := Some (ps(u \<mapsto> p @ [u]))\<rparr>)"
proof -
  let ?st = "st\<lparr>seen := (seen st)(u \<mapsto> d + w), fringe := (d + w, c st, u) # fringe st,
               c := Suc (c st), paths := Some (ps(u \<mapsto> p @ [u]))\<rparr>"
  note nb = valid_nbr_facts[OF vg sc mem]
  from settled_okD[OF dinvD(2)[OF inv] dv] have sv: "seen st v = Some d" .
  from path_okD[OF dinvD(1)[OF inv]] ps
  have pall: "\<forall>a x. seen st a = Some x \<longrightarrow> (\<exists>q. ps a = Some q \<and> is_route G s a q x)" by simp
  with sv pv have rv: "is_route G s v p d" by fastforce
  from is_route_nonneg[OF vg rv] have d0: "0 \<le> d" .
  have "\<forall>a x. seen ?st a = Some x \<longrightarrow>
          (\<exists>q. (ps(u \<mapsto> p @ [u])) a = Some q \<and> is_route G s a q x)"
  proof (intro allI impI)
    fix a x assume sa: "seen ?st a = Some x"
    show "\<exists>q. (ps(u \<mapsto> p @ [u])) a = Some q \<and> is_route G s a q x"
    proof (cases "a = u")
      case True
      with sa have "x = d + w" by simp
      with True is_route_snoc[OF vg rv nb(4)] show ?thesis by simp
    next
      case False
      with sa have "seen st a = Some x" by simp
      with pall False show ?thesis by simp
    qed
  qed
  then have "path_ok G s ?st" unfolding path_ok_def by simp
  moreover have "settled_ok ?st"
    unfolding settled_ok_def
  proof (intro allI impI)
    fix a x assume da: "dist ?st a = Some x"
    then have da': "dist st a = Some x" by simp
    with du have "a \<noteq> u" by auto
    with settled_okD[OF dinvD(2)[OF inv] da'] show "seen ?st a = Some x" by simp
  qed
  moreover have "queued_ok ?st"
    unfolding queued_ok_def
  proof (intro allI impI)
    fix a x assume sa: "seen ?st a = Some x" and da: "dist ?st a = None"
    show "\<exists>k. (x, k, a) \<in> set (fringe ?st)"
    proof (cases "a = u")
      case True
      with sa have "x = d + w" by simp
      with True show ?thesis by auto
    next
      case False
      with sa da have "seen st a = Some x" and "dist st a = None" by simp_all
      from queued_okD[OF dinvD(3)[OF inv] this] show ?thesis by auto
    qed
  qed
  moreover have "fringe_ok ?st"
    unfolding fringe_ok_def
  proof (intro allI impI)
    fix y k a assume m: "(y, k, a) \<in> set (fringe ?st)"
    then consider "(y, k, a) = (d + w, c st, u)" | "(y, k, a) \<in> set (fringe st)" by auto
    then show "\<exists>x. seen ?st a = Some x \<and> x \<le> y"
    proof cases
      case 1
      then show ?thesis by simp
    next
      case 2
      from fringe_okD[OF dinvD(4)[OF inv] 2] obtain x where x: "seen st a = Some x" and xy: "x \<le> y"
        by blast
      show ?thesis
      proof (cases "a = u")
        case True
        with x better have "d + w < x" by simp
        with xy True show ?thesis by simp
      next
        case False
        with x xy show ?thesis by simp
      qed
    qed
  qed
  moreover have "mono_ok ?st"
    unfolding mono_ok_def
  proof (intro allI impI)
    fix a x e assume da: "dist ?st a = Some x" and e: "e \<in> set (fringe ?st)"
    from da have da': "dist st a = Some x" by simp
    from e consider "e = (d + w, c st, u)" | "e \<in> set (fringe st)" by auto
    then show "x \<le> fst e"
    proof cases
      case 1
      from maxd da' have "x \<le> d" by blast
      with 1 nb(2) show ?thesis by simp
    next
      case 2
      from mono_okD[OF dinvD(5)[OF inv] da' 2] show ?thesis .
    qed
  qed
  moreover from dinvD(6)[OF inv] have "opt_ok G s ?st" by (simp add: opt_ok_def)
  moreover have "closed_ok G ({v} \<times> R) ?st"
    unfolding closed_ok_def
  proof (intro allI impI)
    fix a y nbrs' b z
    assume da: "dist ?st a = Some y" and sc': "succ G a = Inr nbrs'"
      and mem': "(b, z) \<in> set nbrs'" and ex: "(a, b, z) \<notin> {v} \<times> R"
    from da have da': "dist st a = Some y" by simp
    show "\<exists>x. seen ?st b = Some x \<and> x \<le> y + z"
    proof (cases "(a, b, z) = (v, u, w)")
      case True
      with da' dv show ?thesis by simp
    next
      case False
      with ex have "(a, b, z) \<notin> {v} \<times> insert (u, w) R" by auto
      from closed_okD[OF dinvD(7)[OF inv] da' sc' mem' this]
      obtain x where x: "seen st b = Some x" and xy: "x \<le> y + z" by blast
      show ?thesis
      proof (cases "b = u")
        case True
        with x better have "d + w < x" by simp
        with xy True show ?thesis by simp
      next
        case False
        with x xy show ?thesis by simp
      qed
    qed
  qed
  moreover have "seen ?st s = Some 0"
  proof (cases "s = u")
    case True
    with dinvD(8)[OF inv] better have "d + w < 0" by simp
    with d0 nb(2) show ?thesis by simp
  next
    case False
    with dinvD(8)[OF inv] show ?thesis by simp
  qed
  ultimately show ?thesis unfolding dinv_def by blast
qed

lemma relax_step:
  assumes vg: "valid_graph G" and inv: "dinv G s ({v} \<times> insert e R) st"
    and dv: "dist st v = Some d"
    and maxd: "\<forall>a x. dist st a = Some x \<longrightarrow> x \<le> d"
    and sc: "succ G v = Inr nbrs" and mem: "e \<in> set nbrs"
  shows "\<exists>st'. relax v e st = Inr st' \<and> dinv G s ({v} \<times> R) st' \<and> dist st' = dist st"
proof -
  obtain u w where e: "e = (u, w)" by (cases e)
  note inv' = inv[unfolded e] and mem' = mem[unfolded e]
  note nb = valid_nbr_facts[OF vg sc mem']
  from settled_okD[OF dinvD(2)[OF inv] dv] have sv: "seen st v = Some d" .
  from path_okD[OF dinvD(1)[OF inv]] sv obtain ps p where ps: "paths st = Some ps"
    and pv: "ps v = Some p" by blast
  note imp = improve_result[OF ps pv, of u "d + w"]
  show ?thesis
  proof (cases "dist st u")
    case (Some du)
    with maxd have "du \<le> d" by blast
    with nb(2) have le: "du \<le> d + w" by simp
    then have r: "relax v e st = Inr st" by (simp add: relax_def e dv Some)
    from settled_okD[OF dinvD(2)[OF inv] Some] have "seen st u = Some du" .
    from dinv_keep[OF inv' dv this le] r show ?thesis by simp
  next
    case None
    show ?thesis
    proof (cases "seen st u")
      case sn: None
      then have better: "\<forall>x. seen st u = Some x \<longrightarrow> d + w < x" by simp
      have r: "relax v e st = improve v u (d + w) st" by (simp add: relax_def e dv None sn)
      from dinv_improve[OF vg inv' dv maxd sc mem' None better ps pv] r imp
      show ?thesis by simp
    next
      case (Some x)
      show ?thesis
      proof (cases "d + w < x")
        case True
        with Some have better: "\<forall>x. seen st u = Some x \<longrightarrow> d + w < x" by simp
        have r: "relax v e st = improve v u (d + w) st"
          by (simp add: relax_def e dv None Some True)
        from dinv_improve[OF vg inv' dv maxd sc mem' None better ps pv] r imp
        show ?thesis by simp
      next
        case False
        then have le: "x \<le> d + w" by simp
        have r: "relax v e st = Inr st" by (simp add: relax_def e dv None Some False)
        from dinv_keep[OF inv' dv Some le] r show ?thesis by simp
      qed
    qed
  qed
qed

lemma relax_all_inv:
  assumes vg: "valid_graph G" and sc: "succ G v = Inr nbrs"
  shows "set es \<subseteq> set nbrs \<Longrightarrow> dinv G s ({v} \<times> set es) st \<Longrightarrow> dist st v = Some d \<Longrightarrow>
         (\<forall>a x. dist st a = Some x \<longrightarrow> x \<le> d) \<Longrightarrow>
         \<exists>st'. relax_all v es st = Inr st' \<and> dinv G s {} st'"
proof (induction es arbitrary: st)
  case Nil
  then show ?case by simp
next
  case (Cons e es)
  from Cons.prems(2) have inv: "dinv G s ({v} \<times> insert e (set es)) st" by simp
  from Cons.prems(1) have mem: "e \<in> set nbrs" and sub: "set es \<subseteq> set nbrs" by simp_all
  from relax_step[OF vg inv Cons.prems(3) Cons.prems(4) sc mem]
  obtain st1 where r: "relax v e st = Inr st1" and inv1: "dinv G s ({v} \<times> set es) st1"
    and d1: "dist st1 = dist st" by blast
  from Cons.prems(3,4) d1 have "dist st1 v = Some d" "\<forall>a x. dist st1 a = Some x \<longrightarrow> x \<le> d"
    by simp_all
  from Cons.IH[OF sub inv1 this] r show ?case by simp
qed

lemma loop_empty: "fringe st = [] \<Longrightarrow> dijkstra_loop G t st = Inr st"
  by (subst dijkstra_loop.simps) simp

lemma loop_skip:
  assumes "fringe st \<noteq> []" and "heappop (fringe st) = ((d, k, v), fr)" and "dist st v = Some x"
  shows "dijkstra_loop G t st = dijkstra_loop G t (st\<lparr>fringe := fr\<rparr>)"
  using assms by (subst dijkstra_loop.simps) simp

lemma loop_target:
  assumes "fringe st \<noteq> []" and "heappop (fringe st) = ((d, k, t), fr)" and "dist st t = None"
  shows "dijkstra_loop G t st = Inr (st\<lparr>dist := (dist st)(t \<mapsto> d), fringe := fr\<rparr>)"
  using assms by (subst dijkstra_loop.simps) (simp add: Let_def)

lemma loop_settle:
  assumes "fringe st \<noteq> []" and "heappop (fringe st) = ((d, k, v), fr)" and "dist st v = None"
    and "v \<noteq> t" and "succ G v = Inr nbrs"
    and "relax_all v nbrs (st\<lparr>dist := (dist st)(v \<mapsto> d), fringe := fr\<rparr>) = Inr st2"
  shows "dijkstra_loop G t st = dijkstra_loop G t st2"
  using assms by (subst dijkstra_loop.simps) (simp add: Let_def)

lemma seen_is_node:
  assumes "dinv G s E st" and "seen st v = Some x"
  shows "v \<in> set (nodes G)"
proof -
  from path_okD[OF dinvD(1)[OF assms(1)]] assms(2) obtain p where "is_route G s v p x"
    by blast
  then show ?thesis by (rule is_route_end_node)
qed

lemma dinv_exempt:
  assumes inv: "dinv G s ({v} \<times> UNIV) st" and sc: "succ G v = Inr nbrs"
  shows "dinv G s ({v} \<times> set nbrs) st"
proof -
  have "closed_ok G ({v} \<times> set nbrs) st"
    unfolding closed_ok_def
  proof (intro allI impI)
    fix a y nbrs' b z
    assume da: "dist st a = Some y" and sc': "succ G a = Inr nbrs'"
      and mem: "(b, z) \<in> set nbrs'" and ex: "(a, b, z) \<notin> {v} \<times> set nbrs"
    have "a \<noteq> v"
    proof
      assume "a = v"
      with sc sc' have "nbrs' = nbrs" by simp
      with mem ex \<open>a = v\<close> show False by simp
    qed
    then have "(a, b, z) \<notin> {v} \<times> (UNIV :: (node \<times> real) set)" by simp
    from closed_okD[OF dinvD(7)[OF inv] da sc' mem this]
    show "\<exists>x. seen st b = Some x \<and> x \<le> y + z" .
  qed
  with dinvD[OF inv] show ?thesis unfolding dinv_def by simp
qed

lemma loop_correct:
  "valid_graph G \<Longrightarrow> dinv G s {} st \<Longrightarrow> \<exists>st'. dijkstra_loop G t st = Inr st' \<and> dpost G s t st'"
proof (induction G t st rule: dijkstra_loop.induct)
  case (1 G t st)
  note vg = "1.prems"(1) and inv = "1.prems"(2)
  show ?case
  proof (cases "fringe st = []")
    case True
    with inv loop_empty[OF True] show ?thesis by (auto simp: dpost_def)
  next
    case ne: False
    obtain d k v fr where pop: "heappop (fringe st) = ((d, k, v), fr)"
      by (metis prod_cases3 surj_pair)
    show ?thesis
    proof (cases "dist st v")
      case (Some x)
      then have old: "dist st v \<noteq> None" by simp
      from dinv_skip[OF inv ne pop old] have inv': "dinv G s {} (st\<lparr>fringe := fr\<rparr>)" .
      from "1.IH"(1)[OF ne pop[symmetric] refl refl old vg inv'] loop_skip[OF ne pop Some]
      show ?thesis by simp
    next
      case None
      let ?st1 = "st\<lparr>dist := (dist st)(v \<mapsto> d), fringe := fr\<rparr>"
      note settle = dinv_settle[OF vg inv ne pop None]
      show ?thesis
      proof (cases "v = t")
        case True
        from settle(1) have "dpost G s t ?st1" unfolding dpost_def True by auto
        with loop_target[OF ne pop[unfolded True] None[unfolded True]] True
        show ?thesis by simp
      next
        case False
        from popped_is_seen[OF inv ne pop None] have "seen st v = Some d" .
        from seen_is_node[OF inv this] have "v \<in> set (nodes G)" .
        from valid_succ[OF vg this] obtain nbrs where sc: "succ G v = Inr nbrs" by blast
        have inv1: "dinv G s ({v} \<times> set nbrs) ?st1"
          by (rule dinv_exempt[OF settle(1) sc])
        have dv: "dist ?st1 v = Some d" by simp
        from settle(2) have maxd: "\<forall>a x. dist ?st1 a = Some x \<longrightarrow> x \<le> d" by simp
        from relax_all_inv[OF vg sc subset_refl inv1 dv maxd]
        obtain st2 where r: "relax_all v nbrs ?st1 = Inr st2" and inv2: "dinv G s {} st2"
          by blast
        have nn: "\<not> dist st v \<noteq> None" using None by simp
        from "1.IH"(2)[OF ne pop[symmetric] refl refl nn refl False sc r vg inv2]
          loop_settle[OF ne pop None False sc r]
        show ?thesis by simp
      qed
    qed
  qed
qed

lemma dpost_found:
  assumes "dpost G s t st" and "dist st t = Some d"
  shows "\<exists>ps p. paths st = Some ps \<and> ps t = Some p \<and> is_route G s t p d \<and>
           (\<forall>q W. is_route G s t q W \<longrightarrow> d \<le> W)"
proof -
  from assms(1) obtain E where inv: "dinv G s E st" unfolding dpost_def by blast
  from settled_okD[OF dinvD(2)[OF inv] assms(2)] have "seen st t = Some d" .
  with path_okD[OF dinvD(1)[OF inv]] obtain ps p where "paths st = Some ps" "ps t = Some p"
    "is_route G s t p d" by blast
  moreover from opt_okD[OF dinvD(6)[OF inv] assms(2)]
  have "\<forall>q W. is_route G s t q W \<longrightarrow> d \<le> W" by blast
  ultimately show ?thesis by blast
qed

lemma dpost_none:
  assumes vg: "valid_graph G" and "dpost G s t st" and "dist st t = None"
  shows "\<not> is_route G s t q W"
proof
  assume r: "is_route G s t q W"
  from assms(2,3) have inv: "dinv G s {} st" and em: "fringe st = []"
    unfolding dpost_def by simp_all
  from route_bound[OF vg inv r] em assms(3) show False by simp
qed

text \<open>\<open>dijkstra_path_length\<close> runs the same loop with \<open>paths=None\<close>: it goes through the
  same states, the paths dictionary apart.\<close>

lemma improve_erase:
  "improve v u x st = Inr st' \<Longrightarrow>
   improve v u x (st\<lparr>paths := None\<rparr>) = Inr (st'\<lparr>paths := None\<rparr>)"
  by (auto simp: improve_def push_def Let_def split: option.splits)

lemma relax_erase:
  "relax v e st = Inr st' \<Longrightarrow> relax v e (st\<lparr>paths := None\<rparr>) = Inr (st'\<lparr>paths := None\<rparr>)"
  by (cases e) (auto simp: relax_def Let_def split: option.splits if_splits dest: improve_erase)

lemma relax_all_erase:
  "relax_all v es st = Inr st' \<Longrightarrow>
   relax_all v es (st\<lparr>paths := None\<rparr>) = Inr (st'\<lparr>paths := None\<rparr>)"
proof (induction es arbitrary: st)
  case Nil
  then show ?case by simp
next
  case (Cons e es)
  from Cons.prems obtain st1 where r: "relax v e st = Inr st1"
    and rest: "relax_all v es st1 = Inr st'" by (auto split: sum.splits)
  from relax_erase[OF r] Cons.IH[OF rest] show ?case by simp
qed

lemma loop_erase:
  "dijkstra_loop G t st = Inr st' \<Longrightarrow>
   dijkstra_loop G t (st\<lparr>paths := None\<rparr>) = Inr (st'\<lparr>paths := None\<rparr>)"
proof (induction G t st rule: dijkstra_loop.induct)
  case (1 G t st)
  show ?case
  proof (cases "fringe st = []")
    case True
    with "1.prems" loop_empty[of st G t] loop_empty[of "st\<lparr>paths := None\<rparr>" G t]
    show ?thesis by simp
  next
    case ne: False
    then have ne': "fringe (st\<lparr>paths := None\<rparr>) \<noteq> []" by simp
    obtain d k v fr where pop: "heappop (fringe st) = ((d, k, v), fr)"
      by (metis prod_cases3 surj_pair)
    then have pop': "heappop (fringe (st\<lparr>paths := None\<rparr>)) = ((d, k, v), fr)" by simp
    show ?thesis
    proof (cases "dist st v")
      case (Some x)
      then have old: "dist st v \<noteq> None" by simp
      from Some have Some': "dist (st\<lparr>paths := None\<rparr>) v = Some x" by simp
      from "1.prems" loop_skip[OF ne pop Some]
      have "dijkstra_loop G t (st\<lparr>fringe := fr\<rparr>) = Inr st'" by simp
      from "1.IH"(1)[OF ne pop[symmetric] refl refl old this]
      have e1: "dijkstra_loop G t ((st\<lparr>fringe := fr\<rparr>)\<lparr>paths := None\<rparr>) = Inr (st'\<lparr>paths := None\<rparr>)" .
      have e2: "(st\<lparr>paths := None\<rparr>)\<lparr>fringe := fr\<rparr> = (st\<lparr>fringe := fr\<rparr>)\<lparr>paths := None\<rparr>"
        by simp
      show ?thesis by (simp only: loop_skip[OF ne' pop' Some'] e2 e1)
    next
      case None
      then have None': "dist (st\<lparr>paths := None\<rparr>) v = None" by simp
      let ?st1 = "st\<lparr>dist := (dist st)(v \<mapsto> d), fringe := fr\<rparr>"
      show ?thesis
      proof (cases "v = t")
        case True
        from loop_target[OF ne pop[unfolded True] None[unfolded True]] "1.prems"
          loop_target[OF ne' pop'[unfolded True] None'[unfolded True]]
        show ?thesis by auto
      next
        case False
        from "1.prems" obtain nbrs st2 where sc: "succ G v = Inr nbrs"
          and r: "relax_all v nbrs ?st1 = Inr st2"
          by (subst (asm) dijkstra_loop.simps)
             (auto simp: ne pop None False Let_def split: sum.splits)
        from loop_settle[OF ne pop None False sc r] "1.prems"
        have run: "dijkstra_loop G t st2 = Inr st'" by simp
        have nn: "\<not> dist st v \<noteq> None" using None by simp
        have e2: "(st\<lparr>paths := None\<rparr>)\<lparr>dist := (dist (st\<lparr>paths := None\<rparr>))(v \<mapsto> d), fringe := fr\<rparr>
                  = ?st1\<lparr>paths := None\<rparr>"
          by simp
        have r': "relax_all v nbrs
                    ((st\<lparr>paths := None\<rparr>)\<lparr>dist := (dist (st\<lparr>paths := None\<rparr>))(v \<mapsto> d), fringe := fr\<rparr>)
                  = Inr (st2\<lparr>paths := None\<rparr>)"
          unfolding e2 by (rule relax_all_erase[OF r])
        from "1.IH"(2)[OF ne pop[symmetric] refl refl nn refl False sc r run]
        have e1: "dijkstra_loop G t (st2\<lparr>paths := None\<rparr>) = Inr (st'\<lparr>paths := None\<rparr>)" .
        show ?thesis by (simp only: loop_settle[OF ne' pop' None' False sc r'] e1)
      qed
    qed
  qed
qed

section \<open>The table of \<open>compute_shortest_paths\<close>\<close>

lemma run_with_paths:
  assumes "valid_graph G" and "s \<in> set (nodes G)"
  shows "\<exists>st'. dijkstra_multisource G [s] (Some (fold (\<lambda>s m. m(s \<mapsto> [s])) [s] Map.empty)) t = Inr st'
           \<and> dpost G s t st'"
  unfolding dijkstra_multisource_def
  by (rule loop_correct[OF assms(1) dinv_init[OF assms(2)]])

lemma run_without_paths:
  assumes "dijkstra_multisource G [s] (Some ps) t = Inr st'"
  shows "dijkstra_multisource G [s] None t = Inr (st'\<lparr>paths := None\<rparr>)"
proof -
  have "fold add_source [s] (init_state None) = (fold add_source [s] (init_state (Some ps)))\<lparr>paths := None\<rparr>"
    by (simp add: add_source_def init_state_def push_def)
  with loop_erase[OF assms[unfolded dijkstra_multisource_def]] show ?thesis
    by (simp only: dijkstra_multisource_def)
qed

lemma route_correct:
  assumes vg: "valid_graph G" and sn: "s \<in> set (nodes G)" and ne: "s \<noteq> t"
  shows "(\<exists>p d. route G t s = Inr (found s t p d) \<and> is_route G s t p d \<and>
            (\<forall>q W. is_route G s t q W \<longrightarrow> d \<le> W))
         \<or> (route G t s = Inr (no_path s t) \<and> (\<forall>q W. \<not> is_route G s t q W))"
proof -
  from run_with_paths[OF vg sn, of t] obtain st'
    where run: "dijkstra_multisource G [s] (Some (fold (\<lambda>s m. m(s \<mapsto> [s])) [s] Map.empty)) t = Inr st'"
      and post: "dpost G s t st'" by blast
  note run' = run_without_paths[OF run]
  from run have run2: "dijkstra_multisource G [s] (Some [s \<mapsto> [s]]) t = Inr st'" by simp
  show ?thesis
  proof (cases "dist st' t")
    case None
    have "multi_source_dijkstra G [s] t = Inl NetworkXNoPath"
      using sn ne by (simp add: multi_source_dijkstra_def has_node_def run2 None)
    then have "route G t s = Inr (no_path s t)"
      by (simp add: route_def dijkstra_path_def single_source_dijkstra_def)
    with dpost_none[OF vg post None] show ?thesis by simp
  next
    case (Some d)
    from dpost_found[OF post Some] obtain ps p where ps: "paths st' = Some ps"
      and p: "ps t = Some p" and r: "is_route G s t p d"
      and opt: "\<forall>q W. is_route G s t q W \<longrightarrow> d \<le> W" by blast
    have "multi_source_dijkstra G [s] t = Inr (d, p)"
      using sn ne by (simp add: multi_source_dijkstra_def has_node_def run2 Some ps p)
    then have dp: "dijkstra_path G s t = Inr p"
      by (simp add: dijkstra_path_def single_source_dijkstra_def)
    have dl: "dijkstra_path_length G s t = Inr d"
      using sn ne by (simp add: dijkstra_path_length_def has_node_def run' Some)
    from dp dl have "route G t s = Inr (found s t p d)" by (simp add: route_def)
    with r opt show ?thesis by blast
  qed
qed

lemma paths_loop_correct:
  assumes vg: "valid_graph G"
  shows "set ns \<subseteq> set (nodes G) \<Longrightarrow> distinct ns \<Longrightarrow> set ns \<inter> fst ` set acc = {} \<Longrightarrow>
         \<exists>tbl. paths_loop G t ns acc = Inr tbl
           \<and> map fst tbl = map fst acc @ filter (\<lambda>n. n \<noteq> t) ns
           \<and> (\<forall>n \<in> set ns. n \<noteq> t \<longrightarrow> (\<exists>r. route G t n = Inr r \<and> map_of tbl n = Some r))
           \<and> (\<forall>n. n \<notin> set ns \<longrightarrow> map_of tbl n = map_of acc n)"
proof (induction ns arbitrary: acc)
  case Nil
  then show ?case by simp
next
  case (Cons s ns)
  from Cons.prems have sub: "set ns \<subseteq> set (nodes G)" and dis: "distinct ns"
    and sn: "s \<in> set (nodes G)" and fresh: "s \<notin> set ns" and sacc: "s \<notin> fst ` set acc"
    and disj: "set ns \<inter> fst ` set acc = {}" by auto
  show ?case
  proof (cases "s = t")
    case True
    from Cons.IH[OF sub dis disj] obtain tbl where tbl: "paths_loop G t ns acc = Inr tbl"
      and keys: "map fst tbl = map fst acc @ filter (\<lambda>n. n \<noteq> t) ns"
      and ent: "\<forall>n \<in> set ns. n \<noteq> t \<longrightarrow> (\<exists>r. route G t n = Inr r \<and> map_of tbl n = Some r)"
      and rest: "\<forall>n. n \<notin> set ns \<longrightarrow> map_of tbl n = map_of acc n" by blast
    from tbl True have "paths_loop G t (s # ns) acc = Inr tbl" by simp
    moreover from keys True have "map fst tbl = map fst acc @ filter (\<lambda>n. n \<noteq> t) (s # ns)"
      by simp
    moreover from ent True
    have "\<forall>n \<in> set (s # ns). n \<noteq> t \<longrightarrow> (\<exists>r. route G t n = Inr r \<and> map_of tbl n = Some r)"
      by simp
    moreover from rest have "\<forall>n. n \<notin> set (s # ns) \<longrightarrow> map_of tbl n = map_of acc n" by simp
    ultimately show ?thesis by blast
  next
    case False
    from route_correct[OF vg sn False] obtain r where r: "route G t s = Inr r" by blast
    let ?acc = "AList.update s r acc"
    from sacc have k: "map fst ?acc = map fst acc @ [s]" by (simp add: update_keys)
    with disj fresh have disj': "set ns \<inter> fst ` set ?acc = {}"
      by (metis Int_insert_right_if0 Un_insert_right dom_update insert_is_Un sup_bot.right_neutral)
    from Cons.IH[OF sub dis disj'] obtain tbl where tbl: "paths_loop G t ns ?acc = Inr tbl"
      and keys: "map fst tbl = map fst ?acc @ filter (\<lambda>n. n \<noteq> t) ns"
      and ent: "\<forall>n \<in> set ns. n \<noteq> t \<longrightarrow> (\<exists>r. route G t n = Inr r \<and> map_of tbl n = Some r)"
      and rest: "\<forall>n. n \<notin> set ns \<longrightarrow> map_of tbl n = map_of ?acc n" by blast
    from tbl r False have "paths_loop G t (s # ns) acc = Inr tbl" by simp
    moreover from keys k False have "map fst tbl = map fst acc @ filter (\<lambda>n. n \<noteq> t) (s # ns)"
      by simp
    moreover have "\<forall>n \<in> set (s # ns). n \<noteq> t \<longrightarrow> (\<exists>r. route G t n = Inr r \<and> map_of tbl n = Some r)"
    proof (intro ballI impI)
      fix n assume n: "n \<in> set (s # ns)" and nt: "n \<noteq> t"
      show "\<exists>r. route G t n = Inr r \<and> map_of tbl n = Some r"
      proof (cases "n = s")
        case True
        with rest fresh have "map_of tbl n = map_of ?acc s" by simp
        with r True show ?thesis by (simp add: update_conv')
      next
        case False
        with n have "n \<in> set ns" by simp
        with ent nt show ?thesis by blast
      qed
    qed
    moreover have "\<forall>n. n \<notin> set (s # ns) \<longrightarrow> map_of tbl n = map_of acc n"
    proof (intro allI impI)
      fix n assume "n \<notin> set (s # ns)"
      then have "n \<notin> set ns" and "n \<noteq> s" by simp_all
      with rest show "map_of tbl n = map_of acc n" by (simp add: update_conv')
    qed
    ultimately show ?thesis by blast
  qed
qed

lemma compute_shortest_paths_correct:
  assumes vg: "valid_graph G"
  shows "\<exists>tbl. compute_shortest_paths G t = Inr tbl
           \<and> map fst tbl = filter (\<lambda>n. n \<noteq> t) (nodes G)
           \<and> (\<forall>n \<in> set (nodes G). n \<noteq> t \<longrightarrow> (\<exists>r. route G t n = Inr r \<and> map_of tbl n = Some r))"
proof -
  from vg have "distinct (nodes G)" by (simp add: valid_graph_def)
  from paths_loop_correct[OF vg subset_refl this, of "[]" t]
  show ?thesis by (auto simp: compute_shortest_paths_def)
qed

lemma found_not_no_path: "found s t p d \<noteq> no_path s' t'"
  by (simp add: found_def no_path_def)

lemma no_route_if_no_path:
  assumes "valid_graph G" and "s \<in> set (nodes G)" and "s \<noteq> t"
    and "route G t s = Inr (no_path s t)"
  shows "\<not> is_route G s t q W"
  using route_correct[OF assms(1-3)] assms(4) found_not_no_path[of s t _ _ s t]
  by (metis Inr_inject)


section \<open>Shortest paths in the constructed graph\<close>

lemma grid_paths_0:
  "compute_shortest_paths (fst create_grid_graph) 0 =
     Inr [(1, found 1 0 [1, 0] (1/2)), (2, found 2 0 [2, 3, 0] (3/2)), (3, found 3 0 [3, 0] 1),
          (4, found 4 0 [4, 3, 0] 2), (5, found 5 0 [5, 4, 3, 0] (5/2)),
          (6, found 6 0 [6, 5, 4, 3, 0] (9/2)), (7, found 7 0 [7, 6, 5, 4, 3, 0] (13/2)),
          (8, found 8 0 [8, 11, 2, 3, 0] (11/2)), (9, found 9 0 [9, 10, 1, 0] (9/2)),
          (10, found 10 0 [10, 1, 0] (5/2)), (11, found 11 0 [11, 2, 3, 0] (7/2))]"
  unfolding grid_graph by code_simp


lemma grid_paths_6:
  "compute_shortest_paths (fst create_grid_graph) 6 =
     Inr [(0, found 0 6 [0, 1, 2, 5, 6] (9/2)), (1, found 1 6 [1, 2, 5, 6] 4),
          (2, found 2 6 [2, 5, 6] 3), (3, found 3 6 [3, 2, 5, 6] (7/2)),
          (4, found 4 6 [4, 5, 6] (5/2)), (5, found 5 6 [5, 6] 2), (7, found 7 6 [7, 6] 2),
          (8, found 8 6 [8, 7, 6] 3), (9, found 9 6 [9, 8, 7, 6] 4),
          (10, found 10 6 [10, 11, 6] 2), (11, found 11 6 [11, 6] 1)]"
  unfolding grid_graph by code_simp


lemma grid_without_long:
  "remove_edges_of_weight 2 (fst create_grid_graph) = \<lparr>node_attr =
    [(0, Some (4, 0)), (1, Some (3, 0)), (2, Some (3, 1)), (3, Some (4, 1)),
     (4, Some (4, 2)), (5, Some (3, 2)), (6, Some (1, 2)), (7, Some (0, 2)),
     (8, Some (0, 1)), (9, Some (0, 0)), (10, Some (1, 0)), (11, Some (1, 1))],
    adj =
      [(0, [(1, 1 / 2), (3, 1)]), (1, [(0, 1 / 2), (2, 1)]),
       (2, [(1, 1), (3, 1 / 2), (5, 1)]),
       (3, [(0, 1), (2, 1 / 2), (4, 1)]), (4, [(3, 1), (5, 1 / 2)]),
       (5, [(2, 1), (4, 1 / 2)]), (6, [(11, 1)]),
       (7, [(8, 1)]), (8, [(7, 1), (9, 1)]), (9, [(8, 1)]),
       (10, [(11, 1)]), (11, [(6, 1), (10, 1)])]\<rparr>"
  unfolding remove_edges_of_weight_def grid_edges
  unfolding grid_graph by (simp add: remove_edge_def)

lemma grid_paths_without_long:
  "compute_shortest_paths (remove_edges_of_weight 2 (fst create_grid_graph)) 0 =
     Inr [(1, found 1 0 [1, 0] (1/2)), (2, found 2 0 [2, 3, 0] (3/2)), (3, found 3 0 [3, 0] 1),
          (4, found 4 0 [4, 3, 0] 2), (5, found 5 0 [5, 4, 3, 0] (5/2)),
          (6, no_path 6 0), (7, no_path 7 0), (8, no_path 8 0), (9, no_path 9 0),
          (10, no_path 10 0), (11, no_path 11 0)]"
  unfolding grid_without_long by code_simp


text \<open>C4, as stated, fails for the destination of the pipeline: with
  destination 0 the distances are 0.5, 1.5, 1, 2, 2.5, 4.5, 6.5, 5.5, 4.5, 2.5 and 3.5, so no
  source reports total distance 4.\<close>

theorem no_source_at_distance_4_from_0:
  "distances (compute_shortest_paths (fst create_grid_graph) 0) =
     [(1, Finite (1/2)), (2, Finite (3/2)), (3, Finite 1), (4, Finite 2), (5, Finite (5/2)),
      (6, Finite (9/2)), (7, Finite (13/2)), (8, Finite (11/2)), (9, Finite (9/2)),
      (10, Finite (5/2)), (11, Finite (7/2))]
   \<and> Finite 4 \<notin> set (map snd (distances (compute_shortest_paths (fst create_grid_graph) 0)))"
  unfolding grid_paths_0 by (simp add: distances_def found_def)

text \<open>C4, amended: in the 12-node topology a source whose route is one weight-2 edge plus
  two weight-1 edges exists when the destination is node 6: sources 1 and 9 then report
  total distance 4 and a route of exactly 4 node ids. With the default destination 0 no
  source reports distance 4.\<close>

theorem long_plus_two_medium_to_6:
  "lookup (compute_shortest_paths (fst create_grid_graph) 6) 1 = Some (found 1 6 [1, 2, 5, 6] 4)
   \<and> edge_weight (fst create_grid_graph) 1 2 = Some 1
   \<and> edge_weight (fst create_grid_graph) 2 5 = Some 1
   \<and> edge_weight (fst create_grid_graph) 5 6 = Some 2
   \<and> length [1, 2, 5, 6 :: node] = 4
   \<and> total_weight (found 1 6 [1, 2, 5, 6] 4) = Finite 4
   \<and> lookup (compute_shortest_paths (fst create_grid_graph) 6) 9 = Some (found 9 6 [9, 8, 7, 6] 4)
   \<and> edge_weight (fst create_grid_graph) 9 8 = Some 1
   \<and> edge_weight (fst create_grid_graph) 8 7 = Some 1
   \<and> edge_weight (fst create_grid_graph) 7 6 = Some 2
   \<and> Finite 4 \<notin> set (map snd (distances (compute_shortest_paths (fst create_grid_graph) 0)))"
  unfolding grid_paths_6 grid_paths_0
  by (simp add: lookup_def found_def distances_def edge_weight_def grid_graph)

text \<open>C6: removing every edge of weight 2 from the constructed graph makes node 6, which
  had a route to destination 0, unreachable: its result becomes the no-path result.\<close>

theorem removing_long_edges_disconnects:
  "lookup (compute_shortest_paths (fst create_grid_graph) 0) 6
     = Some (found 6 0 [6, 5, 4, 3, 0] (9/2))
   \<and> lookup (compute_shortest_paths (remove_edges_of_weight 2 (fst create_grid_graph)) 0) 6
     = Some (no_path 6 0)
   \<and> list_all (\<lambda>e. snd (snd e) \<noteq> 2) (edges (remove_edges_of_weight 2 (fst create_grid_graph)))"
  unfolding grid_paths_0 grid_paths_without_long
  by (simp add: lookup_def grid_without_long edges_def)


section \<open>Shortest paths in any valid graph\<close>

text \<open>The theorems of this section hold for every graph that satisfies the invariants of
  the data model (\<open>valid_graph\<close>), with weights and distances read as real numbers.\<close>



text \<open>C5: for every source node with no route to the destination, \<open>compute_shortest_paths\<close>
  returns normally, and the result of that source is the no-path result: infinite total
  weight, no path, and the description \<open>No path found\<close>. The result of every other source
  is what the loop body computes for that source alone.\<close>

theorem unreachable_source_result:
  assumes "valid_graph G" and "n \<in> set (nodes G)" and "n \<noteq> t"
    and "\<forall>q W. \<not> is_route G n t q W"
  shows "\<exists>tbl. compute_shortest_paths G t = Inr tbl
           \<and> map_of tbl n = Some (no_path n t)
           \<and> total_weight (no_path n t) = Infinity \<and> path (no_path n t) = None
           \<and> path_description (no_path n t) = ''No path found''
           \<and> (\<forall>m \<in> set (nodes G). m \<noteq> t \<longrightarrow> (\<exists>r. route G t m = Inr r \<and> map_of tbl m = Some r))"
proof -
  from compute_shortest_paths_correct[OF assms(1), of t] obtain tbl
    where tbl: "compute_shortest_paths G t = Inr tbl"
      and ent: "\<forall>m \<in> set (nodes G). m \<noteq> t \<longrightarrow> (\<exists>r. route G t m = Inr r \<and> map_of tbl m = Some r)"
    by blast
  from route_correct[OF assms(1-3)] assms(4) have "route G t n = Inr (no_path n t)" by blast
  with ent assms(2,3) have "map_of tbl n = Some (no_path n t)" by fastforce
  with tbl ent show ?thesis by (simp add: no_path_def)
qed

lemma grid_without_long_valid: "valid_graph (remove_edges_of_weight 2 (fst create_grid_graph))"
  unfolding grid_without_long by code_simp

lemma grid_without_long_route_6:
  "route (remove_edges_of_weight 2 (fst create_grid_graph)) 0 6 = Inr (no_path 6 0)"
  unfolding grid_without_long by code_simp

theorem unreachable_source_result_witness:
  "valid_graph (remove_edges_of_weight 2 (fst create_grid_graph))
   \<and> 6 \<in> set (nodes (remove_edges_of_weight 2 (fst create_grid_graph))) \<and> (6 :: node) \<noteq> 0
   \<and> (\<forall>q W. \<not> is_route (remove_edges_of_weight 2 (fst create_grid_graph)) 6 0 q W)
   \<and> (\<exists>tbl. compute_shortest_paths (remove_edges_of_weight 2 (fst create_grid_graph)) 0 = Inr tbl
         \<and> map_of tbl 6 = Some (no_path 6 0)
         \<and> map_of tbl 5 = Some (found 5 0 [5, 4, 3, 0] (5/2)))"
proof -
  let ?G = "remove_edges_of_weight 2 (fst create_grid_graph)"
  have n: "6 \<in> set (nodes ?G)" and ne: "(6 :: node) \<noteq> 0"
    by (simp_all add: grid_without_long nodes_def)
  have no: "\<forall>q W. \<not> is_route ?G 6 0 q W"
    using no_route_if_no_path[OF grid_without_long_valid n ne grid_without_long_route_6]
    by blast
  from unreachable_source_result[OF grid_without_long_valid n ne no]
  obtain tbl where "compute_shortest_paths ?G 0 = Inr tbl" and "map_of tbl 6 = Some (no_path 6 0)"
    by blast
  with grid_paths_without_long have "compute_shortest_paths ?G 0 = Inr tbl
      \<and> map_of tbl 6 = Some (no_path 6 0) \<and> map_of tbl 5 = Some (found 5 0 [5, 4, 3, 0] (5/2))"
    by auto
  with grid_without_long_valid n ne no show ?thesis by blast
qed



text \<open>C8: the table returned by \<open>compute_shortest_paths\<close> has an entry for every node of the
  graph except the destination, in the order of the nodes, and no entry whose key is the
  destination.\<close>

theorem table_excludes_destination:
  assumes "valid_graph G"
  shows "\<exists>tbl. compute_shortest_paths G t = Inr tbl
           \<and> map fst tbl = filter (\<lambda>n. n \<noteq> t) (nodes G)
           \<and> set (map fst tbl) = set (nodes G) - {t}
           \<and> map_of tbl t = None"
proof -
  from compute_shortest_paths_correct[OF assms, of t] obtain tbl
    where tbl: "compute_shortest_paths G t = Inr tbl"
      and keys: "map fst tbl = filter (\<lambda>n. n \<noteq> t) (nodes G)" by blast
  from keys have "set (map fst tbl) = set (nodes G) - {t}" by auto
  moreover from this have "map_of tbl t = None"
    by (metis DiffD2 insertI1 map_of_eq_None_iff set_map)
  ultimately show ?thesis using tbl keys by blast
qed

theorem table_excludes_destination_witness:
  "valid_graph (fst create_grid_graph)
   \<and> (\<exists>tbl. compute_shortest_paths (fst create_grid_graph) 0 = Inr tbl
         \<and> map fst tbl = [1, 2, 3, 4, 5, 6, 7, 8, 9, 10, 11] \<and> map_of tbl 0 = None)"
proof -
  from table_excludes_destination[OF grid_valid, of 0] obtain tbl
    where "compute_shortest_paths (fst create_grid_graph) 0 = Inr tbl"
      and "map fst tbl = filter (\<lambda>n. n \<noteq> 0) (nodes (fst create_grid_graph))"
      and "map_of tbl 0 = None" by blast
  moreover have "filter (\<lambda>n. n \<noteq> 0) (nodes (fst create_grid_graph)) = [1, 2, 3, 4, 5, 6, 7, 8, 9, 10, 11]"
    by (simp add: grid_graph nodes_def)
  ultimately show ?thesis using grid_valid by auto
qed



end
